theory Spec2Isabelle
  imports Complex_Main "HOL-Library.Log_Nat"
begin

section \<open>The float64 values that \<open>normalizeRange\<close> computes with\<close>

text \<open>
  \<open>normalizeRange\<close> (sunevent.go, lines 187 to 197) uses only \<open>+=\<close>, \<open>-=\<close>, \<open><\<close> and
  \<open>>=\<close> on float64. IEEE 754 fixes these operations exactly (round to nearest, ties to
  even), so they are modelled exactly.

  Every finite float64 is an integer multiple of \<open>2^-1074\<close>, the smallest subnormal.
  \<open>Finite k\<close> stands for the number \<open>k * 2^-1074\<close>; a float64 has 53 significant bits, and
  the largest finite one is \<open>(2^53 - 1) * 2^971\<close>, which is \<open>(2^53 - 1) * 2^2045\<close> units.
  The sign of zero is not represented: no operation used here tells \<open>-0\<close> from \<open>+0\<close>.
\<close>

datatype float64 = Finite int | PInf | NInf | NaN

text \<open>Rounding a non-negative integer to the nearest multiple of \<open>2^s\<close>, ties to the even
  multiple.\<close>

definition roundShift :: "int \<Rightarrow> nat \<Rightarrow> int" where
  "roundShift a s = (let d = 2 ^ s; q = a div d; r = a mod d in
     if 2 * r < d then q * d
     else if d < 2 * r then (q + 1) * d
     else if even q then q * d else (q + 1) * d)"

text \<open>The shift that leaves 53 significant bits of \<open>k\<close>: the exponent of the last place.\<close>

definition ulpShift :: "int \<Rightarrow> nat" where
  "ulpShift k = nat (bitlen \<bar>k\<bar> - 53)"

text \<open>The number \<open>2^1024\<close> in units of \<open>2^-1074\<close>: what rounds to it or beyond overflows.\<close>

definition overflowThreshold :: int where
  "overflowThreshold = 2 ^ 2098"

text \<open>Rounding an exact result, given in units of \<open>2^-1074\<close>, to float64. A result that rounds
  to \<open>2^1024\<close> or more overflows to an infinity.\<close>

definition round64 :: "int \<Rightarrow> float64" where
  "round64 k = (let r = roundShift \<bar>k\<bar> (ulpShift k) in
     if overflowThreshold \<le> r then (if 0 < k then PInf else NInf) else Finite (sgn k * r))"

text \<open>The integers \<open>k\<close> for which \<open>k * 2^-1074\<close> is a float64.\<close>

definition representable :: "int \<Rightarrow> bool" where
  "representable k \<longleftrightarrow> 2 ^ ulpShift k dvd k \<and> \<bar>k\<bar> < overflowThreshold"

text \<open>The number 1 in units of \<open>2^-1074\<close>, and the float64 of an integer constant such as
  \<open>360\<close>.\<close>

definition one64 :: int where
  "one64 = 2 ^ 1074"

definition f64 :: "int \<Rightarrow> float64" where
  "f64 n = round64 (n * one64)"

instantiation float64 :: "{zero, plus, minus, ord}"
begin

definition zero_float64 :: float64 where
  "zero_float64 = Finite 0"

fun plus_float64 :: "float64 \<Rightarrow> float64 \<Rightarrow> float64" where
  "plus_float64 (Finite a) (Finite b) = round64 (a + b)"
| "plus_float64 NaN y = NaN"
| "plus_float64 x NaN = NaN"
| "plus_float64 PInf NInf = NaN"
| "plus_float64 NInf PInf = NaN"
| "plus_float64 PInf y = PInf"
| "plus_float64 NInf y = NInf"
| "plus_float64 x PInf = PInf"
| "plus_float64 x NInf = NInf"

fun minus_float64 :: "float64 \<Rightarrow> float64 \<Rightarrow> float64" where
  "minus_float64 (Finite a) (Finite b) = round64 (a - b)"
| "minus_float64 NaN y = NaN"
| "minus_float64 x NaN = NaN"
| "minus_float64 PInf PInf = NaN"
| "minus_float64 NInf NInf = NaN"
| "minus_float64 PInf y = PInf"
| "minus_float64 NInf y = NInf"
| "minus_float64 x PInf = NInf"
| "minus_float64 x NInf = PInf"

fun less_float64 :: "float64 \<Rightarrow> float64 \<Rightarrow> bool" where
  "less_float64 (Finite a) (Finite b) = (a < b)"
| "less_float64 NaN y = False"
| "less_float64 x NaN = False"
| "less_float64 NInf NInf = False"
| "less_float64 NInf y = True"
| "less_float64 PInf y = False"
| "less_float64 x PInf = True"
| "less_float64 x NInf = False"

fun less_eq_float64 :: "float64 \<Rightarrow> float64 \<Rightarrow> bool" where
  "less_eq_float64 (Finite a) (Finite b) = (a \<le> b)"
| "less_eq_float64 NaN y = False"
| "less_eq_float64 x NaN = False"
| "less_eq_float64 NInf y = True"
| "less_eq_float64 x PInf = True"
| "less_eq_float64 PInf y = False"
| "less_eq_float64 x NInf = False"

instance ..

end

section \<open>normalizeRange\<close>

text \<open>
  The two loops of \<open>normalizeRange\<close>, over any number type with the four operations, so
  that one definition serves float64 and the real numbers. Either loop may run forever;
  not returning is the value \<open>None\<close>. Go's \<open>v >= max\<close> is \<open>mx \<le> v\<close>.
\<close>

partial_function (option) normalizeRange_up :: "'a::{zero,plus,ord} \<Rightarrow> 'a \<Rightarrow> 'a option" where
  "normalizeRange_up v mx = (if v < 0 then normalizeRange_up (v + mx) mx else Some v)"

partial_function (option) normalizeRange_down :: "'a::{minus,ord} \<Rightarrow> 'a \<Rightarrow> 'a option" where
  "normalizeRange_down v mx = (if mx \<le> v then normalizeRange_down (v - mx) mx else Some v)"

declare normalizeRange_up.simps [code]
declare normalizeRange_down.simps [code]

definition normalizeRange :: "'a::{zero,plus,minus,ord} \<Rightarrow> 'a \<Rightarrow> 'a option" where
  "normalizeRange v mx = (case normalizeRange_up v mx of
     None \<Rightarrow> None
   | Some v' \<Rightarrow> normalizeRange_down v' mx)"

text \<open>The same loops allowed at most \<open>n\<close> iterations each: \<open>None\<close> when a loop needs more.\<close>

fun normalizeRange_up_within :: "nat \<Rightarrow> 'a::{zero,plus,ord} \<Rightarrow> 'a \<Rightarrow> 'a option" where
  "normalizeRange_up_within 0 v mx = (if v < 0 then None else Some v)"
| "normalizeRange_up_within (Suc n) v mx =
     (if v < 0 then normalizeRange_up_within n (v + mx) mx else Some v)"

fun normalizeRange_down_within :: "nat \<Rightarrow> 'a::{minus,ord} \<Rightarrow> 'a \<Rightarrow> 'a option" where
  "normalizeRange_down_within 0 v mx = (if mx \<le> v then None else Some v)"
| "normalizeRange_down_within (Suc n) v mx =
     (if mx \<le> v then normalizeRange_down_within n (v - mx) mx else Some v)"

definition normalizeRange_within :: "nat \<Rightarrow> 'a::{zero,plus,minus,ord} \<Rightarrow> 'a \<Rightarrow> 'a option" where
  "normalizeRange_within n v mx = (case normalizeRange_up_within n v mx of
     None \<Rightarrow> None
   | Some v' \<Rightarrow> normalizeRange_down_within n v' mx)"

text \<open>The large value used to show where the loops stop making progress.\<close>

definition huge :: int where
  "huge = 2 ^ 100"

section \<open>The solar calculation\<close>

text \<open>
  \<open>sunRiseSet\<close> multiplies, divides and calls \<open>math.Sin\<close>, \<open>math.Cos\<close>, \<open>math.Tan\<close>,
  \<open>math.Asin\<close>, \<open>math.Acos\<close> and \<open>math.Atan\<close>, whose float64 results the Go language does
  not fix bit for bit. Its float64 quantities are therefore modelled by real numbers with
  exact arithmetic and the exact trigonometric functions; what the code does where exact
  arithmetic has no value (division by zero) is written out.
\<close>

subsection \<open>Degree trigonometry (lines 155 to 185)\<close>

definition degreeToRadian :: "real \<Rightarrow> real" where
  "degreeToRadian x = (pi / 180) * x"

definition radianToDegree :: "real \<Rightarrow> real" where
  "radianToDegree x = (180 / pi) * x"

definition degreeSin :: "real \<Rightarrow> real" where
  "degreeSin x = sin (degreeToRadian x)"

definition degreeAsin :: "real \<Rightarrow> real" where
  "degreeAsin x = radianToDegree (arcsin x)"

definition degreeAtan :: "real \<Rightarrow> real" where
  "degreeAtan x = radianToDegree (arctan x)"

definition degreeTan :: "real \<Rightarrow> real" where
  "degreeTan x = tan (degreeToRadian x)"

definition degreeCos :: "real \<Rightarrow> real" where
  "degreeCos x = cos (degreeToRadian x)"

definition degreeAcos :: "real \<Rightarrow> real" where
  "degreeAcos x = radianToDegree (arccos x)"

subsection \<open>The clock and the result\<close>

text \<open>What \<open>sunRiseSet\<close> reads from \<open>time.Now()\<close>: the calendar date, the day of the year, and
  the name and offset (seconds east of UTC) of the zone in effect.\<close>

record Instant =
  nowYear :: int
  nowMonth :: int
  nowDay :: int
  nowYearDay :: int
  nowZoneName :: string
  nowZoneOffset :: int

record Location =
  locName :: string
  locOffset :: int

definition FixedZone :: "string \<Rightarrow> int \<Rightarrow> Location" where
  "FixedZone name offset = \<lparr>locName = name, locOffset = offset\<rparr>"

text \<open>The arguments given to \<open>time.Date\<close>, as given. \<open>time.Date\<close> carries fields that are out
  of range into the next unit; it leaves fields that are in range as they are.\<close>

record Time =
  tYear :: int
  tMonth :: int
  tDay :: int
  tHour :: int
  tMin :: int
  tSec :: int
  tNsec :: int
  tLoc :: Location

definition Date :: "int \<Rightarrow> int \<Rightarrow> int \<Rightarrow> int \<Rightarrow> int \<Rightarrow> int \<Rightarrow> int \<Rightarrow> Location \<Rightarrow> Time" where
  "Date y mo d h mi s ns l =
     \<lparr>tYear = y, tMonth = mo, tDay = d, tHour = h, tMin = mi, tSec = s, tNsec = ns, tLoc = l\<rparr>"

text \<open>\<open>math.Floor\<close>, and the conversion \<open>int(x)\<close>, which truncates toward zero.\<close>

definition Floor :: "real \<Rightarrow> real" where
  "Floor x = of_int \<lfloor>x\<rfloor>"

definition toInt :: "real \<Rightarrow> int" where
  "toInt x = (if 0 \<le> x then \<lfloor>x\<rfloor> else \<lceil>x\<rceil>)"

text \<open>The ways \<open>sunRiseSet\<close> does not return a meaningful time: the \<open>panic\<close> of line 117 with
  its message, a normalisation loop that never ends, and a quotient \<open>0/0\<close>, which in float64
  is NaN, passes both comparisons of line 116 and reaches \<open>int(NaN)\<close>, a value Go leaves
  to the implementation.\<close>

datatype failure = Panic string | Hang | NaNTime

text \<open>A float64 quotient in exact arithmetic: a number, an infinity (a non-zero number
  divided by zero; either sign fails the check of line 116 alike), or NaN (\<open>0/0\<close>).\<close>

datatype quotient = Num real | Infinity | NotANumber

definition fdiv :: "real \<Rightarrow> real \<Rightarrow> quotient" where
  "fdiv x y = (if y \<noteq> 0 then Num (x / y) else if x = 0 then NotANumber else Infinity)"

subsection \<open>The steps of sunRiseSet (lines 27 to 153)\<close>

text \<open>Step 2, lines 62 to 66.\<close>

definition approxTime :: "real \<Rightarrow> bool \<Rightarrow> real \<Rightarrow> real" where
  "approxTime N sunset lngHour =
     (if sunset then N + ((18 - lngHour) / 24) else N + ((6 - lngHour) / 24))"

text \<open>Step 3, line 71.\<close>

definition meanAnomaly :: "real \<Rightarrow> real" where
  "meanAnomaly t = (0.9856 * t) - 3.289"

text \<open>Step 4, lines 76 to 78.\<close>

definition trueLongitude :: "real \<Rightarrow> real option" where
  "trueLongitude M =
     normalizeRange (M + (1.916 * degreeSin M) + (0.020 * degreeSin (2 * M)) + 282.634) 360"

text \<open>Step 5, lines 84 to 99; the result is in hours. Where the exact tangent has no value
  (\<open>L = 90\<close> and \<open>L = 270\<close>) the function \<open>tan\<close> of HOL is 0, and the step yields \<open>L / 15\<close>,
  the limit from both sides.\<close>

definition rightAscension :: "real \<Rightarrow> real option" where
  "rightAscension L =
     (case normalizeRange (degreeAtan (0.91764 * degreeTan L)) 360 of
        None \<Rightarrow> None
      | Some RA \<Rightarrow>
          let Lquadrant = Floor (L / 90) * 90;
              RAquadrant = Floor (RA / 90) * 90
          in Some ((RA + (Lquadrant - RAquadrant)) / 15))"

text \<open>Step 6, lines 105 and 106.\<close>

definition sinDec :: "real \<Rightarrow> real" where
  "sinDec L = 0.39782 * degreeSin L"

definition cosDec :: "real \<Rightarrow> real" where
  "cosDec L = degreeCos (degreeAsin (sinDec L))"

text \<open>Step 7a, line 115.\<close>

definition cosHourAngle :: "real \<Rightarrow> real \<Rightarrow> real \<Rightarrow> quotient" where
  "cosHourAngle zenith latitude L =
     fdiv (degreeCos zenith - (sinDec L * degreeSin latitude)) (cosDec L * degreeCos latitude)"

text \<open>Step 7b, lines 127 to 131; the result is in hours.\<close>

definition hourAngle :: "bool \<Rightarrow> real \<Rightarrow> real" where
  "hourAngle sunset cosH = (if sunset then degreeAcos cosH else 360 - degreeAcos cosH) / 15"

text \<open>Step 8, line 136.\<close>

definition localMeanTime :: "real \<Rightarrow> real \<Rightarrow> real \<Rightarrow> real" where
  "localMeanTime H RA t = H + RA - (0.06571 * t) - 6.622"

text \<open>Steps 1 to 8 together, lines 48 to 136: the local mean time \<open>T\<close> of the event, or the
  failure that ends the call.\<close>

definition eventMeanTime :: "Instant \<Rightarrow> bool \<Rightarrow> real \<Rightarrow> real \<Rightarrow> real \<Rightarrow> failure + real" where
  "eventMeanTime today sunrise latitude longitude zenith =
     (let sunset = (sunrise \<noteq> True);
          N = real_of_int (nowYearDay today);
          lngHour = longitude / 15;
          t = approxTime N sunset lngHour;
          M = meanAnomaly t
      in case trueLongitude M of
           None \<Rightarrow> Inl Hang
         | Some L \<Rightarrow>
            (case rightAscension L of
               None \<Rightarrow> Inl Hang
             | Some RA \<Rightarrow>
                (case cosHourAngle zenith latitude L of
                   Infinity \<Rightarrow> Inl (Panic ''no answer'')
                 | NotANumber \<Rightarrow> Inl NaNTime
                 | Num cosH \<Rightarrow>
                     if cosH > 1.0 \<or> cosH < - 1.0 then Inl (Panic ''no answer'')
                     else Inr (localMeanTime (hourAngle sunset cosH) RA t))))"

text \<open>Steps 9 and 10, lines 142 to 152: from \<open>T\<close> to the returned time.\<close>

definition clockTime :: "Instant \<Rightarrow> real \<Rightarrow> Time" where
  "clockTime today localT =
     (let loc = FixedZone (nowZoneName today) (nowZoneOffset today);
          hour = Floor localT;
          minute = Floor ((localT - hour) * 60.0);
          second = Floor (((localT - hour) * 60.0 - minute) * 60.0)
      in Date (nowYear today) (nowMonth today) (nowDay today)
           (toInt hour) (toInt minute) (toInt second) 0 loc)"

definition toLocalTime :: "Instant \<Rightarrow> real \<Rightarrow> real \<Rightarrow> failure + Time" where
  "toLocalTime today lngHour T =
     (let localOffset = real_of_int (nowZoneOffset today) / 3600.0
      in case normalizeRange (T - lngHour) 24.0 of
           None \<Rightarrow> Inl Hang
         | Some UT \<Rightarrow>
            (case normalizeRange (UT + localOffset) 24.0 of
               None \<Rightarrow> Inl Hang
             | Some localT \<Rightarrow> Inr (clockTime today localT)))"

definition sunRiseSet :: "Instant \<Rightarrow> bool \<Rightarrow> real \<Rightarrow> real \<Rightarrow> real \<Rightarrow> failure + Time" where
  "sunRiseSet today sunrise latitude longitude zenith =
     (case eventMeanTime today sunrise latitude longitude zenith of
        Inl e \<Rightarrow> Inl e
      | Inr T \<Rightarrow> toLocalTime today (longitude / 15) T)"

subsection \<open>The entry points (lines 11 to 25)\<close>

text \<open>Each call reads the clock once; the instant read is the first argument.\<close>

definition SunRise :: "Instant \<Rightarrow> real \<Rightarrow> real \<Rightarrow> failure + Time" where
  "SunRise today latitude longitude = sunRiseSet today True latitude longitude 90.0"

definition SunSet :: "Instant \<Rightarrow> real \<Rightarrow> real \<Rightarrow> failure + Time" where
  "SunSet today latitude longitude = sunRiseSet today False latitude longitude 90.0"

definition Dawn :: "Instant \<Rightarrow> real \<Rightarrow> real \<Rightarrow> failure + Time" where
  "Dawn today latitude longitude = sunRiseSet today True latitude longitude 83.0"

definition Dusk :: "Instant \<Rightarrow> real \<Rightarrow> real \<Rightarrow> failure + Time" where
  "Dusk today latitude longitude = sunRiseSet today False latitude longitude 83.0"

section \<open>The reference formulas\<close>

text \<open>
  The formulas of the specification, written from its words and not from the code:
  \<open>normalize\<close> as the value in \<open>[0, max)\<close> that differs from \<open>v\<close> by a multiple of \<open>max\<close>,
  trigonometry in degrees, the nine steps, and the decomposition into hour, minute and
  second. The theorems below compare the code with them.
\<close>

definition spec_normalize :: "real \<Rightarrow> real \<Rightarrow> real" where
  "spec_normalize v m = v - m * of_int \<lfloor>v / m\<rfloor>"

definition spec_sin :: "real \<Rightarrow> real" where
  "spec_sin x = sin (x * pi / 180)"

definition spec_cos :: "real \<Rightarrow> real" where
  "spec_cos x = cos (x * pi / 180)"

definition spec_tan :: "real \<Rightarrow> real" where
  "spec_tan x = tan (x * pi / 180)"

definition spec_asin :: "real \<Rightarrow> real" where
  "spec_asin x = arcsin x * 180 / pi"

definition spec_acos :: "real \<Rightarrow> real" where
  "spec_acos x = arccos x * 180 / pi"

definition spec_atan :: "real \<Rightarrow> real" where
  "spec_atan x = arctan x * 180 / pi"

definition spec_t :: "real \<Rightarrow> bool \<Rightarrow> real \<Rightarrow> real" where
  "spec_t N rising longitude =
     (if rising then N + ((6 - longitude / 15) / 24) else N + ((18 - longitude / 15) / 24))"

definition spec_M :: "real \<Rightarrow> real" where
  "spec_M t = 0.9856 * t - 3.289"

definition spec_L :: "real \<Rightarrow> real" where
  "spec_L M = spec_normalize (M + 1.916 * spec_sin M + 0.020 * spec_sin (2 * M) + 282.634) 360"

definition spec_RA :: "real \<Rightarrow> real" where
  "spec_RA L = (let RA = spec_normalize (spec_atan (0.91764 * spec_tan L)) 360
     in (RA + (of_int \<lfloor>L / 90\<rfloor> * 90 - of_int \<lfloor>RA / 90\<rfloor> * 90)) / 15)"

definition spec_sinDec :: "real \<Rightarrow> real" where
  "spec_sinDec L = 0.39782 * spec_sin L"

definition spec_cosH :: "real \<Rightarrow> real \<Rightarrow> real \<Rightarrow> real" where
  "spec_cosH zenith latitude L =
     (spec_cos zenith - spec_sinDec L * spec_sin latitude)
       / (spec_cos (spec_asin (spec_sinDec L)) * spec_cos latitude)"

definition spec_H :: "bool \<Rightarrow> real \<Rightarrow> real" where
  "spec_H rising cosH = (if rising then (360 - spec_acos cosH) / 15 else spec_acos cosH / 15)"

definition spec_T :: "real \<Rightarrow> real \<Rightarrow> real \<Rightarrow> real" where
  "spec_T H RA t = H + RA - 0.06571 * t - 6.622"

definition spec_timestamp :: "Instant \<Rightarrow> real \<Rightarrow> real \<Rightarrow> Time" where
  "spec_timestamp today longitude T =
     (let UT = spec_normalize (T - longitude / 15) 24;
          localT = spec_normalize (UT + real_of_int (nowZoneOffset today) / 3600) 24;
          hour = \<lfloor>localT\<rfloor>;
          minute = \<lfloor>(localT - of_int hour) * 60\<rfloor>;
          second = \<lfloor>((localT - of_int hour) * 60 - of_int minute) * 60\<rfloor>
      in \<lparr>tYear = nowYear today, tMonth = nowMonth today, tDay = nowDay today,
          tHour = hour, tMin = minute, tSec = second, tNsec = 0,
          tLoc = \<lparr>locName = nowZoneName today, locOffset = nowZoneOffset today\<rparr>\<rparr>)"

section \<open>A reference instant\<close>

text \<open>The first of January 2024, read in UTC.\<close>

definition newYearsDay :: Instant where
  "newYearsDay = \<lparr>nowYear = 2024, nowMonth = 1, nowDay = 1, nowYearDay = 1,
     nowZoneName = ''UTC'', nowZoneOffset = 0\<rparr>"

section \<open>Inputs and conditions named in the claims\<close>

text \<open>The two conditions of step 7 on the quotient \<open>cosH\<close> of line 115: the sun never
  rises when \<open>cosH > 1\<close>, and never sets when \<open>cosH < -1\<close>. An infinite quotient also
  leaves \<open>[-1, 1]\<close>; its sign, and so which of the two it is, is not modelled.\<close>

definition neverRises :: "quotient \<Rightarrow> bool" where
  "neverRises q = (case q of Num cosH \<Rightarrow> cosH > 1 | Infinity \<Rightarrow> False | NotANumber \<Rightarrow> False)"

definition neverSets :: "quotient \<Rightarrow> bool" where
  "neverSets q = (case q of Num cosH \<Rightarrow> cosH < - 1 | Infinity \<Rightarrow> False | NotANumber \<Rightarrow> False)"

text \<open>The true longitude \<open>L\<close> that a rising-event call computes on the first of January
  (day 1) at longitude 0, and the latitude at which that day's sun just reaches the horizon
  (zenith 90), so that \<open>cosH = 1\<close>.\<close>

definition januaryLongitude :: real where
  "januaryLongitude = the (trueLongitude (meanAnomaly (approxTime 1 False 0)))"


text \<open>The time of day of a returned time, in seconds since midnight of its date, and two
  times having the same date and zone: such times are ordered as their seconds are.\<close>

definition clockSeconds :: "Time \<Rightarrow> int" where
  "clockSeconds ts = tHour ts * 3600 + tMin ts * 60 + tSec ts"

definition sameDate :: "Time \<Rightarrow> Time \<Rightarrow> bool" where
  "sameDate a b \<longleftrightarrow>
     tYear a = tYear b \<and> tMonth a = tMonth b \<and> tDay a = tDay b \<and> tLoc a = tLoc b"

section \<open>Lemmas\<close>

subsection \<open>Rounding to float64\<close>

lemma div_less_of_less_mult:
  fixes a d n :: int
  assumes "0 < d" "a < n * d"
  shows "a div d < n"
proof -
  have "a = d * (a div d) + a mod d" by simp
  moreover have "0 \<le> a mod d" using assms(1) by simp
  ultimately have "d * (a div d) \<le> a" by linarith
  then have "d * (a div d) < d * n" using assms(2) by (simp add: mult.commute)
  then show ?thesis using assms(1) by (simp add: mult_less_cancel_left_pos)
qed

lemma le_div_of_mult_le:
  fixes a d n :: int
  assumes "0 < d" "n * d \<le> a"
  shows "n \<le> a div d"
proof -
  have "a = d * (a div d) + a mod d" by simp
  moreover have "a mod d < d" using assms(1) by simp
  ultimately have "a < d * (a div d) + d" by linarith
  then have "d * n < d * (a div d + 1)" using assms(2) by (simp add: mult.commute algebra_simps)
  then have "n < a div d + 1" using assms(1) by (simp add: mult_less_cancel_left_pos)
  then show ?thesis by simp
qed

lemma ulpShift_upper: "\<bar>k\<bar> < 2 ^ (53 + ulpShift k)"
proof -
  have "bitlen \<bar>k\<bar> \<le> int (53 + ulpShift k)"
    by (simp add: ulpShift_def)
  then show ?thesis
    by (simp add: bitlen_le_iff_power nat_add_distrib)
qed

lemma ulpShift_lower: "0 < ulpShift k \<Longrightarrow> 2 ^ (52 + ulpShift k) \<le> \<bar>k\<bar>"
proof -
  assume "0 < ulpShift k"
  then have "int (53 + ulpShift k) \<le> bitlen \<bar>k\<bar>"
    by (simp add: ulpShift_def)
  then have "2 ^ (nat (int (53 + ulpShift k)) - 1) \<le> \<bar>k\<bar>"
    unfolding bitlen_ge_iff_power by linarith
  then show ?thesis
    by (simp only: nat_int) simp
qed

lemma ulpShift_le: "\<bar>k\<bar> < 2 ^ (53 + s) \<Longrightarrow> ulpShift k \<le> s"
proof -
  assume "\<bar>k\<bar> < 2 ^ (53 + s)"
  then have "\<bar>k\<bar> < 2 ^ nat (int (53 + s))"
    by (simp only: nat_int)
  then have "bitlen \<bar>k\<bar> \<le> int (53 + s)"
    unfolding bitlen_le_iff_power by simp
  then show ?thesis
    by (simp add: ulpShift_def)
qed

lemma ulpShift_mono: "\<bar>x\<bar> \<le> \<bar>y\<bar> \<Longrightarrow> ulpShift x \<le> ulpShift y"
  using ulpShift_le [of x "ulpShift y"] ulpShift_upper [of y] by simp

lemma ulpShift_minus [simp]: "ulpShift (- k) = ulpShift k"
  by (simp add: ulpShift_def)

lemma ulpShift_abs [simp]: "ulpShift \<bar>k\<bar> = ulpShift k"
  by (simp add: ulpShift_def)

lemma roundShift_dvd: "2 ^ s dvd a \<Longrightarrow> roundShift a s = a"
  by (auto simp: roundShift_def Let_def)

lemma dvd_roundShift: "2 ^ s dvd roundShift a s"
  by (simp add: roundShift_def Let_def)

lemma roundShift_le: 
  assumes "2 ^ s dvd b" "a \<le> b"
  shows "roundShift a s \<le> b"
proof (cases "2 ^ s dvd a")
  case True
  then show ?thesis using assms by (simp add: roundShift_dvd)
next
  case False
  obtain n where n: "b = n * 2 ^ s" using assms(1) by (auto simp: dvd_def mult.commute)
  have "a \<noteq> b" using False assms(1) by auto
  then have "a < n * 2 ^ s" using assms(2) n by simp
  then have "a div 2 ^ s < n"
    by (intro div_less_of_less_mult) simp_all
  then have "(a div 2 ^ s + 1) * 2 ^ s \<le> n * 2 ^ s" "(a div 2 ^ s) * 2 ^ s \<le> n * 2 ^ s"
    by (simp_all add: mult_right_mono)
  then show ?thesis
    by (simp add: roundShift_def Let_def n)
qed

lemma roundShift_ge: 
  assumes "2 ^ s dvd b" "b \<le> a"
  shows "b \<le> roundShift a s"
proof -
  obtain n where n: "b = n * 2 ^ s" using assms(1) by (auto simp: dvd_def mult.commute)
  have "n \<le> a div 2 ^ s"
    using assms(2) n by (intro le_div_of_mult_le) simp_all
  then have "n * 2 ^ s \<le> (a div 2 ^ s + 1) * 2 ^ s" "n * 2 ^ s \<le> (a div 2 ^ s) * 2 ^ s"
    by (simp_all add: mult_right_mono)
  then show ?thesis
    by (simp add: roundShift_def Let_def n)
qed

lemma roundShift_nonneg: "0 \<le> a \<Longrightarrow> 0 \<le> roundShift a s"
  using roundShift_ge [of s 0 a] by simp

lemma round64_representable: "representable k \<Longrightarrow> round64 k = Finite k"
proof -
  assume r: "representable k"
  then have "2 ^ ulpShift k dvd \<bar>k\<bar>" by (simp add: representable_def)
  then have "roundShift \<bar>k\<bar> (ulpShift k) = \<bar>k\<bar>" by (rule roundShift_dvd)
  then show ?thesis using r by (simp add: round64_def representable_def Let_def mult_sgn_abs)
qed

lemma round64_nonneg_le:
  assumes "0 \<le> x" "x \<le> a" "representable a"
  shows "\<exists>r. round64 x = Finite r \<and> 0 \<le> r \<and> r \<le> a"
proof -
  have "ulpShift x \<le> ulpShift a" using assms by (intro ulpShift_mono) simp
  then have "(2::int) ^ ulpShift x dvd 2 ^ ulpShift a" by (simp add: le_imp_power_dvd)
  moreover have "2 ^ ulpShift a dvd a" using assms(3) by (simp add: representable_def)
  ultimately have d: "2 ^ ulpShift x dvd a" by (rule dvd_trans)
  have le: "roundShift \<bar>x\<bar> (ulpShift x) \<le> a" using d assms by (intro roundShift_le) simp_all
  have ge: "0 \<le> roundShift \<bar>x\<bar> (ulpShift x)" by (intro roundShift_nonneg) simp
  have "a < overflowThreshold" using assms(3) by (simp add: representable_def abs_less_iff)
  then have "\<not> overflowThreshold \<le> roundShift \<bar>x\<bar> (ulpShift x)" using le by linarith
  then have "round64 x = Finite (sgn x * roundShift \<bar>x\<bar> (ulpShift x))"
    by (simp add: round64_def Let_def)
  moreover have "sgn x * roundShift \<bar>x\<bar> (ulpShift x) \<le> a" "0 \<le> sgn x * roundShift \<bar>x\<bar> (ulpShift x)"
    using le ge assms(1,2) by (auto simp: sgn_if)
  ultimately show ?thesis by simp
qed

lemma overflowThreshold_pos: "0 < overflowThreshold"
  by (simp add: overflowThreshold_def)

lemma round64_zero [simp]: "round64 0 = Finite 0"
  using overflowThreshold_pos by (simp add: round64_def Let_def roundShift_dvd)

lemma round64_minus: "round64 (- k) = (case round64 k of Finite r \<Rightarrow> Finite (- r) | PInf \<Rightarrow> NInf | NInf \<Rightarrow> PInf | NaN \<Rightarrow> NaN)"
proof (cases "k = 0")
  case True
  then show ?thesis by simp
next
  case False
  then show ?thesis by (auto simp: round64_def Let_def sgn_if)
qed

lemma representable_minus [simp]: "representable (- k) = representable k"
  by (simp add: representable_def)

lemma representable_zero [simp]: "representable 0"
  using overflowThreshold_pos by (simp add: representable_def)

lemma round64_result_representable:
  assumes "round64 k = Finite r"
  shows "representable r"
proof -
  define s where "s = ulpShift k"
  define R where "R = roundShift \<bar>k\<bar> s"
  define B :: int where "B = 2 ^ (53 + s)"
  have fin: "R < overflowThreshold" and r: "r = sgn k * R"
    using assms by (auto simp: round64_def Let_def R_def s_def split: if_splits)
  have R0: "0 \<le> R" unfolding R_def by (intro roundShift_nonneg) simp
  have dvd: "2 ^ s dvd R" unfolding R_def by (rule dvd_roundShift)
  have "\<bar>k\<bar> < B" unfolding s_def B_def by (rule ulpShift_upper)
  moreover have "2 ^ s dvd B" unfolding B_def by (simp add: le_imp_power_dvd)
  ultimately have RB: "R \<le> B" unfolding R_def by (intro roundShift_le) simp_all
  have "2 ^ ulpShift R dvd R"
  proof (cases "R = B")
    case True
    have "B < 2 ^ (53 + (s + 1))" unfolding B_def
      by (rule power_strict_increasing) simp_all
    then have "\<bar>R\<bar> < 2 ^ (53 + (s + 1))" using RB R0 by linarith
    then have "ulpShift R \<le> s + 1" by (rule ulpShift_le)
    then have "ulpShift R \<le> 53 + s" by simp
    then have "(2::int) ^ ulpShift R dvd 2 ^ (53 + s)" by (rule le_imp_power_dvd)
    then show ?thesis using True by (simp only: B_def)
  next
    case False
    then have "\<bar>R\<bar> < B" using RB R0 by linarith
    then have "ulpShift R \<le> s" unfolding B_def by (rule ulpShift_le)
    then have "(2::int) ^ ulpShift R dvd 2 ^ s" by (rule le_imp_power_dvd)
    then show ?thesis using dvd by (rule dvd_trans)
  qed
  then have "representable R" using fin R0 by (simp add: representable_def)
  then show ?thesis using r by (cases "k = 0"; cases "k < 0") (simp_all add: sgn_if)
qed

lemma round64_down_step:
  assumes a: "representable a" and m: "0 < m" "m \<le> a" "a \<le> 2 ^ 52 * m"
  shows "\<exists>r. round64 (a - m) = Finite r \<and> 0 \<le> r \<and> r < a"
proof -
  define s where "s = ulpShift a"
  have dvd: "2 ^ s dvd a" and fin: "\<bar>a\<bar> < overflowThreshold"
    using a by (simp_all add: representable_def s_def)
  have sm: "2 ^ s \<le> m"
  proof (cases "s = 0")
    case True
    then show ?thesis using m(1) by simp
  next
    case False
    then have "2 ^ (52 + s) \<le> \<bar>a\<bar>" unfolding s_def by (intro ulpShift_lower) simp
    then have "(2::int) ^ 52 * 2 ^ s \<le> 2 ^ 52 * m" using m by (simp add: power_add)
    then show ?thesis by simp
  qed
  define a' where "a' = a - 2 ^ s"
  have a'0: "0 \<le> a'" using sm m by (simp add: a'_def)
  have "(0::int) < 2 ^ s" by simp
  then have "\<bar>a'\<bar> \<le> \<bar>a\<bar>" using a'0 unfolding a'_def by linarith
  then have "ulpShift a' \<le> s" unfolding s_def by (rule ulpShift_mono)
  then have "(2::int) ^ ulpShift a' dvd 2 ^ s" by (simp add: le_imp_power_dvd)
  moreover have "2 ^ s dvd a'" unfolding a'_def using dvd by (simp add: dvd_diff)
  ultimately have "2 ^ ulpShift a' dvd a'" by (rule dvd_trans)
  moreover have "\<bar>a'\<bar> < overflowThreshold" using fin \<open>\<bar>a'\<bar> \<le> \<bar>a\<bar>\<close> by linarith
  ultimately have "representable a'" by (simp add: representable_def)
  moreover have "0 \<le> a - m" "a - m \<le> a'" using m sm by (simp_all add: a'_def)
  ultimately obtain r where "round64 (a - m) = Finite r" "0 \<le> r" "r \<le> a'"
    using round64_nonneg_le by blast
  moreover have "a' < a" by (simp add: a'_def)
  ultimately show ?thesis by auto
qed

lemma round64_up_step:
  assumes v: "representable v" "v < 0" and m: "representable m" "0 < m" "- v \<le> 2 ^ 52 * m"
  shows "\<exists>r. round64 (v + m) = Finite r \<and> v < r \<and> r \<le> m"
proof (cases "0 \<le> v + m")
  case True
  then obtain r where "round64 (v + m) = Finite r" "0 \<le> r" "r \<le> m"
    using round64_nonneg_le [of "v + m" m] m v by auto
  then show ?thesis using v by auto
next
  case False
  have "representable (- v)" using v by simp
  moreover have "m \<le> - v" using False by simp
  ultimately obtain r where r: "round64 (- v - m) = Finite r" "0 \<le> r" "r < - v"
    using round64_down_step [of "- v" m] m by auto
  have "v + m = - (- v - m)" by linarith
  then have "round64 (v + m) = round64 (- (- v - m))" by (rule arg_cong)
  also have "\<dots> = Finite (- r)" using r(1) by (simp only: round64_minus float64.case)
  finally show ?thesis using r m by auto
qed

lemma round64_finite_toward_zero:
  assumes "representable a" "\<bar>x\<bar> \<le> \<bar>a\<bar>"
  shows "\<exists>r. round64 x = Finite r \<and> \<bar>r\<bar> \<le> \<bar>a\<bar> \<and> (0 \<le> x \<longrightarrow> 0 \<le> r) \<and> (x \<le> 0 \<longrightarrow> r \<le> 0)"
proof -
  have ra: "representable \<bar>a\<bar>" using assms(1) by (cases "0 \<le> a") simp_all
  obtain r where r: "round64 \<bar>x\<bar> = Finite r" "0 \<le> r" "r \<le> \<bar>a\<bar>"
    using round64_nonneg_le [of "\<bar>x\<bar>" "\<bar>a\<bar>"] ra assms(2) by auto
  show ?thesis
  proof (cases "0 \<le> x")
    case True
    then show ?thesis using r by auto
  next
    case False
    then have "round64 x = round64 (- \<bar>x\<bar>)" by simp
    also have "\<dots> = Finite (- r)" using r(1) by (simp only: round64_minus float64.case)
    finally show ?thesis using r False by auto
  qed
qed

subsection \<open>The loops of normalizeRange on float64\<close>

lemma less_zero_Finite [simp]: "(Finite v < 0) = (v < 0)"
  by (simp add: zero_float64_def)

lemma up_terminates:
  assumes "representable m" "0 < m"
  shows "representable v \<Longrightarrow> - v \<le> 2 ^ 52 * m \<Longrightarrow>
    \<exists>r. normalizeRange_up (Finite v) (Finite m) = Some (Finite r) \<and> representable r
       \<and> 0 \<le> r \<and> (r = v \<or> r \<le> m)"
proof (induction "nat (- v)" arbitrary: v rule: less_induct)
  case less
  show ?case
  proof (cases "v < 0")
    case False
    then show ?thesis using less.prems by (subst normalizeRange_up.simps) simp
  next
    case True
    obtain r where r: "round64 (v + m) = Finite r" "v < r" "r \<le> m"
      using round64_up_step [OF less.prems(1) True assms less.prems(2)] by blast
    have rr: "representable r" using r(1) by (rule round64_result_representable)
    have step: "normalizeRange_up (Finite v) (Finite m) = normalizeRange_up (Finite r) (Finite m)"
      using True r(1) by (subst normalizeRange_up.simps) simp
    have "nat (- r) < nat (- v)" using r(2) True by simp
    moreover have "- r \<le> 2 ^ 52 * m" using r(2) less.prems(2) by simp
    ultimately obtain r' where "normalizeRange_up (Finite r) (Finite m) = Some (Finite r')"
        "representable r'" "0 \<le> r'" "r' = r \<or> r' \<le> m"
      using less.hyps [of r] rr by blast
    then show ?thesis using step r(3) by auto
  qed
qed

lemma down_terminates:
  assumes "representable m" "0 < m"
  shows "representable w \<Longrightarrow> 0 \<le> w \<Longrightarrow> w \<le> 2 ^ 52 * m \<Longrightarrow>
    \<exists>r. normalizeRange_down (Finite w) (Finite m) = Some (Finite r) \<and> representable r
       \<and> 0 \<le> r \<and> r < m"
proof (induction "nat w" arbitrary: w rule: less_induct)
  case less
  show ?case
  proof (cases "m \<le> w")
    case False
    then show ?thesis using less.prems by (subst normalizeRange_down.simps) simp
  next
    case True
    obtain r where r: "round64 (w - m) = Finite r" "0 \<le> r" "r < w"
      using round64_down_step [OF less.prems(1) assms(2) True less.prems(3)] by blast
    have rr: "representable r" using r(1) by (rule round64_result_representable)
    have step: "normalizeRange_down (Finite w) (Finite m) = normalizeRange_down (Finite r) (Finite m)"
      using True r(1) by (subst normalizeRange_down.simps) simp
    have "nat r < nat w" using r(2,3) by simp
    moreover have "r \<le> 2 ^ 52 * m" using r(3) less.prems(3) by simp
    ultimately obtain r' where "normalizeRange_down (Finite r) (Finite m) = Some (Finite r')"
        "representable r'" "0 \<le> r'" "r' < m"
      using less.hyps [of r] rr r(2) by blast
    then show ?thesis using step by auto
  qed
qed

lemma normalizeRange_float64_terminates:
  assumes "representable v" "representable m" "0 < m" "\<bar>v\<bar> \<le> 2 ^ 52 * m"
  shows "\<exists>r. normalizeRange (Finite v) (Finite m) = Some (Finite r) \<and> representable r
       \<and> 0 \<le> r \<and> r < m"
proof -
  have "- v \<le> 2 ^ 52 * m" using assms(4) by linarith
  then obtain u where u: "normalizeRange_up (Finite v) (Finite m) = Some (Finite u)"
      "representable u" "0 \<le> u" "u = v \<or> u \<le> m"
    using up_terminates [OF assms(2,3) assms(1)] by blast
  have "u \<le> 2 ^ 52 * m" using u(4) assms(3,4) by auto
  then obtain r where "normalizeRange_down (Finite u) (Finite m) = Some (Finite r)"
      "representable r" "0 \<le> r" "r < m"
    using down_terminates [OF assms(2,3) u(2,3)] by blast
  then show ?thesis using u(1) by (simp add: normalizeRange_def)
qed

lemma normalizeRange_fixed:
  "0 \<le> r \<Longrightarrow> r < m \<Longrightarrow> normalizeRange (Finite r) (Finite m) = Some (Finite r)"
  by (simp add: normalizeRange_def normalizeRange_up.simps [of "Finite r"]
      normalizeRange_down.simps [of "Finite r"])

lemma up_partial:
  assumes "normalizeRange_up x mx = Some y"
  shows "\<forall>v m. x = Finite v \<longrightarrow> mx = Finite m \<longrightarrow> representable v \<longrightarrow> representable m \<longrightarrow> 0 < m
       \<longrightarrow> (\<exists>k. y = Finite k \<and> representable k \<and> 0 \<le> k)"
proof (rule normalizeRange_up.raw_induct [OF _ assms])
  fix up :: "float64 \<Rightarrow> float64 \<Rightarrow> float64 option" and x mx y
  assume IH: "\<And>x mx y. up x mx = Some y \<Longrightarrow>
      \<forall>v m. x = Finite v \<longrightarrow> mx = Finite m \<longrightarrow> representable v \<longrightarrow> representable m \<longrightarrow> 0 < m
       \<longrightarrow> (\<exists>k. y = Finite k \<and> representable k \<and> 0 \<le> k)"
    and eq: "(if x < 0 then up (x + mx) mx else Some x) = Some y"
  show "\<forall>v m. x = Finite v \<longrightarrow> mx = Finite m \<longrightarrow> representable v \<longrightarrow> representable m \<longrightarrow> 0 < m
       \<longrightarrow> (\<exists>k. y = Finite k \<and> representable k \<and> 0 \<le> k)"
  proof (intro allI impI)
    fix v m
    assume h: "x = Finite v" "mx = Finite m" "representable v" "representable m" "0 < m"
    show "\<exists>k. y = Finite k \<and> representable k \<and> 0 \<le> k"
    proof (cases "v < 0")
      case False
      then show ?thesis using h eq by auto
    next
      case True
      have "\<bar>v + m\<bar> \<le> \<bar>v\<bar> \<or> \<bar>v + m\<bar> \<le> \<bar>m\<bar>" using True h by linarith
      then obtain r where r: "round64 (v + m) = Finite r"
        using round64_finite_toward_zero [of v "v + m"] round64_finite_toward_zero [of m "v + m"] h
        by blast
      then have "representable r" by (rule round64_result_representable)
      moreover have "up (Finite r) (Finite m) = Some y" using h eq True r by simp
      ultimately show ?thesis using IH h by blast
    qed
  qed
qed

lemma down_partial:
  assumes "normalizeRange_down x mx = Some y"
  shows "\<forall>w m. x = Finite w \<longrightarrow> mx = Finite m \<longrightarrow> representable w \<longrightarrow> 0 \<le> w \<longrightarrow> 0 < m
       \<longrightarrow> (\<exists>k. y = Finite k \<and> representable k \<and> 0 \<le> k \<and> k < m)"
proof (rule normalizeRange_down.raw_induct [OF _ assms])
  fix down :: "float64 \<Rightarrow> float64 \<Rightarrow> float64 option" and x mx y
  assume IH: "\<And>x mx y. down x mx = Some y \<Longrightarrow>
      \<forall>w m. x = Finite w \<longrightarrow> mx = Finite m \<longrightarrow> representable w \<longrightarrow> 0 \<le> w \<longrightarrow> 0 < m
       \<longrightarrow> (\<exists>k. y = Finite k \<and> representable k \<and> 0 \<le> k \<and> k < m)"
    and eq: "(if mx \<le> x then down (x - mx) mx else Some x) = Some y"
  show "\<forall>w m. x = Finite w \<longrightarrow> mx = Finite m \<longrightarrow> representable w \<longrightarrow> 0 \<le> w \<longrightarrow> 0 < m
       \<longrightarrow> (\<exists>k. y = Finite k \<and> representable k \<and> 0 \<le> k \<and> k < m)"
  proof (intro allI impI)
    fix w m
    assume h: "x = Finite w" "mx = Finite m" "representable w" "0 \<le> w" "0 < m"
    show "\<exists>k. y = Finite k \<and> representable k \<and> 0 \<le> k \<and> k < m"
    proof (cases "m \<le> w")
      case False
      then show ?thesis using h eq by auto
    next
      case True
      have "\<bar>w - m\<bar> \<le> \<bar>w\<bar>" "0 \<le> w - m" using True h by linarith+
      then obtain r where r: "round64 (w - m) = Finite r" "0 \<le> r"
        using round64_finite_toward_zero [of w "w - m"] h by blast
      then have "representable r" using round64_result_representable by blast
      moreover have "down (Finite r) (Finite m) = Some y" using h eq True r by simp
      ultimately show ?thesis using IH h r by blast
    qed
  qed
qed

lemma normalizeRange_float64_partial:
  assumes "normalizeRange (Finite v) (Finite m) = Some y" "representable v" "representable m" "0 < m"
  shows "\<exists>k. y = Finite k \<and> representable k \<and> 0 \<le> k \<and> k < m"
proof -
  obtain u where u: "normalizeRange_up (Finite v) (Finite m) = Some u"
      "normalizeRange_down u (Finite m) = Some y"
    using assms(1) by (auto simp: normalizeRange_def split: option.splits)
  obtain k where k: "u = Finite k" "representable k" "0 \<le> k"
    using up_partial [OF u(1)] assms(2,3,4) by blast
  show ?thesis using down_partial [OF u(2)] k assms(4) by blast
qed

lemma up_within_sound:
  "normalizeRange_up_within n v mx = Some r \<Longrightarrow> normalizeRange_up v mx = Some r"
proof (induction n arbitrary: v)
  case 0
  then show ?case by (subst normalizeRange_up.simps) (simp split: if_splits)
next
  case (Suc n)
  then show ?case by (subst normalizeRange_up.simps) (simp split: if_splits)
qed

lemma down_within_sound:
  "normalizeRange_down_within n v mx = Some r \<Longrightarrow> normalizeRange_down v mx = Some r"
proof (induction n arbitrary: v)
  case 0
  then show ?case by (subst normalizeRange_down.simps) (simp split: if_splits)
next
  case (Suc n)
  then show ?case by (subst normalizeRange_down.simps) (simp split: if_splits)
qed

lemma within_sound:
  "normalizeRange_within n v mx = Some r \<Longrightarrow> normalizeRange v mx = Some r"
  by (auto simp: normalizeRange_within_def normalizeRange_def up_within_sound down_within_sound
      split: option.splits)

lemma roundShift_error: "2 * roundShift a s \<le> 2 * a + 2 ^ s" "2 * a - 2 ^ s \<le> 2 * roundShift a s"
proof -
  define d :: int where "d = 2 ^ s"
  have d: "0 < d" by (simp add: d_def)
  have a: "a = a div d * d + a mod d" by simp
  have m: "0 \<le> a mod d" "a mod d < d" using d by simp_all
  have cases: "roundShift a s = a div d * d \<and> 2 * (a mod d) \<le> d
      \<or> roundShift a s = (a div d + 1) * d \<and> d \<le> 2 * (a mod d)"
    by (auto simp: roundShift_def Let_def d_def)
  have e: "(a div d + 1) * d = a div d * d + d" by (simp add: algebra_simps)
  show "2 * roundShift a s \<le> 2 * a + 2 ^ s" "2 * a - 2 ^ s \<le> 2 * roundShift a s"
    using cases a m unfolding e d_def [symmetric] by linarith+
qed

lemma ulp_le_max:
  assumes "0 < m" "\<bar>a\<bar> \<le> 2 ^ 52 * m"
  shows "2 ^ ulpShift a \<le> m"
proof (cases "ulpShift a = 0")
  case True
  then show ?thesis using assms(1) by simp
next
  case False
  then have "2 ^ (52 + ulpShift a) \<le> \<bar>a\<bar>" by (intro ulpShift_lower) simp
  then have "(2::int) ^ 52 * 2 ^ ulpShift a \<le> 2 ^ 52 * m" using assms by (simp add: power_add)
  then show ?thesis by simp
qed

lemma ulp_le_self:
  assumes "representable m" "0 < m"
  shows "2 ^ ulpShift m \<le> m"
proof -
  have "2 ^ ulpShift m dvd m" using assms by (simp add: representable_def)
  then show ?thesis using assms(2) by (rule zdvd_imp_le)
qed

lemma round64_Finite_value:
  "round64 k = Finite r \<Longrightarrow> r = sgn k * roundShift \<bar>k\<bar> (ulpShift k)"
  by (simp add: round64_def Let_def split: if_splits)

lemma round64_error:
  assumes "round64 x = Finite r" "2 ^ ulpShift x \<le> m"
  shows "2 * x - m \<le> 2 * r" "2 * r \<le> 2 * x + m"
proof -
  define R where "R = roundShift \<bar>x\<bar> (ulpShift x)"
  define P :: int where "P = 2 ^ ulpShift x"
  have r: "r = sgn x * R" using assms(1) unfolding R_def by (rule round64_Finite_value)
  have e: "2 * R \<le> 2 * \<bar>x\<bar> + P" "2 * \<bar>x\<bar> - P \<le> 2 * R"
    unfolding R_def P_def by (rule roundShift_error)+
  have P: "P \<le> m" "0 < P" using assms(2) by (simp_all add: P_def)
  consider "x = 0" | "0 < x" | "x < 0" by linarith
  then have "2 * x - m \<le> 2 * r \<and> 2 * r \<le> 2 * x + m"
  proof cases
    case 1
    then have "r = 0" using r by simp
    then show ?thesis using 1 P by simp
  next
    case 2
    then have "r = R" "\<bar>x\<bar> = x" using r by simp_all
    then show ?thesis using e P by linarith
  next
    case 3
    then have "r = - R" "\<bar>x\<bar> = - x" using r by simp_all
    then show ?thesis using e P by linarith
  qed
  then show "2 * x - m \<le> 2 * r" "2 * r \<le> 2 * x + m" by simp_all
qed

lemma round64_down_progress:
  assumes a: "representable a" and m: "0 < m" "m \<le> a" "a \<le> 2 ^ 52 * m"
  shows "\<exists>r. round64 (a - m) = Finite r \<and> 0 \<le> r \<and> 2 * r \<le> 2 * a - m"
proof -
  have "\<bar>a - m\<bar> \<le> \<bar>a\<bar>" using m by linarith
  then obtain r where r: "round64 (a - m) = Finite r" "0 \<le> r"
    using round64_finite_toward_zero [OF a, of "a - m"] m by auto
  define B where "B = 2 ^ 52 * m"
  have "\<bar>a - m\<bar> \<le> B" using m unfolding B_def [symmetric] by linarith
  then have "\<bar>a - m\<bar> \<le> 2 ^ 52 * m" by (simp only: B_def)
  then have "2 ^ ulpShift (a - m) \<le> m" using m(1) by (intro ulp_le_max)
  then have "2 * r \<le> 2 * (a - m) + m" using r(1) by (intro round64_error)
  then show ?thesis using r by auto
qed

lemma round64_up_progress:
  assumes v: "representable v" "v < 0" and m: "representable m" "0 < m" "- v \<le> 2 ^ 52 * m"
  shows "\<exists>r. round64 (v + m) = Finite r \<and> 2 * v + m \<le> 2 * r \<and> r \<le> m"
proof -
  obtain r where r: "round64 (v + m) = Finite r" "v < r" "r \<le> m"
    using round64_up_step [OF v m] by blast
  define B where "B = 2 ^ 52 * m"
  have "m \<le> B" using m(2) by (simp add: B_def)
  then have "\<bar>v + m\<bar> \<le> B" using v(2) m(2,3) unfolding B_def [symmetric] by linarith
  then have b: "\<bar>v + m\<bar> \<le> 2 ^ 52 * m" by (simp only: B_def)
  have u: "2 ^ ulpShift (v + m) \<le> m" using m(2) b by (rule ulp_le_max)
  have "2 * (v + m) - m \<le> 2 * r" using r(1) u by (rule round64_error)
  then show ?thesis using r by auto
qed

lemma up_within_terminates:
  assumes "representable m" "0 < m"
  shows "representable v \<Longrightarrow> - v \<le> 2 ^ 52 * m \<Longrightarrow> - (2 * v) \<le> int n * m \<Longrightarrow>
    \<exists>r. normalizeRange_up_within n (Finite v) (Finite m) = Some (Finite r) \<and> representable r
       \<and> 0 \<le> r \<and> (r = v \<or> r \<le> m)"
proof (induction n arbitrary: v)
  case 0
  then show ?case by simp
next
  case (Suc n)
  show ?case
  proof (cases "v < 0")
    case False
    then show ?thesis using Suc.prems by simp
  next
    case True
    obtain r where r: "round64 (v + m) = Finite r" "2 * v + m \<le> 2 * r" "r \<le> m"
      using round64_up_progress [OF Suc.prems(1) True assms Suc.prems(2)] by blast
    have rr: "representable r" using r(1) by (rule round64_result_representable)
    have "int (Suc n) * m = int n * m + m" by (simp add: algebra_simps)
    then have "- (2 * r) \<le> int n * m" using r(2) Suc.prems(3) by linarith
    moreover have "- r \<le> 2 ^ 52 * m" using r(2) Suc.prems(2) assms(2) by linarith
    ultimately obtain r' where "normalizeRange_up_within n (Finite r) (Finite m) = Some (Finite r')"
        "representable r'" "0 \<le> r'" "r' = r \<or> r' \<le> m"
      using Suc.IH [of r] rr by blast
    then show ?thesis using True r(1,3) by auto
  qed
qed

lemma down_within_terminates:
  assumes "representable m" "0 < m"
  shows "representable w \<Longrightarrow> 0 \<le> w \<Longrightarrow> w \<le> 2 ^ 52 * m \<Longrightarrow> 2 * w < (int n + 2) * m \<Longrightarrow>
    \<exists>r. normalizeRange_down_within n (Finite w) (Finite m) = Some (Finite r) \<and> representable r
       \<and> 0 \<le> r \<and> r < m"
proof (induction n arbitrary: w)
  case 0
  then show ?case by simp
next
  case (Suc n)
  show ?case
  proof (cases "m \<le> w")
    case False
    then show ?thesis using Suc.prems by simp
  next
    case True
    obtain r where r: "round64 (w - m) = Finite r" "0 \<le> r" "2 * r \<le> 2 * w - m"
      using round64_down_progress [OF Suc.prems(1) assms(2) True Suc.prems(3)] by blast
    have rr: "representable r" using r(1) by (rule round64_result_representable)
    have "(int (Suc n) + 2) * m = (int n + 2) * m + m" by (simp add: algebra_simps)
    then have "2 * r < (int n + 2) * m" using r(3) Suc.prems(4) by linarith
    moreover have "r \<le> 2 ^ 52 * m" using r(3) Suc.prems(3) assms(2) by linarith
    ultimately obtain r' where "normalizeRange_down_within n (Finite r) (Finite m) = Some (Finite r')"
        "representable r'" "0 \<le> r'" "r' < m"
      using Suc.IH [of r] rr r(2) by blast
    then show ?thesis using True r(1) by auto
  qed
qed

lemma within_terminates:
  assumes "representable v" "representable m" "0 < m" "\<bar>v\<bar> \<le> 2 ^ 52 * m"
  shows "\<exists>r. normalizeRange_within (nat (2 * \<bar>v\<bar> div m) + 1) (Finite v) (Finite m) = Some (Finite r)"
proof -
  define n where "n = nat (2 * \<bar>v\<bar> div m) + 1"
  have "0 \<le> 2 * \<bar>v\<bar> div m" using assms(3) by (simp add: pos_imp_zdiv_nonneg_iff)
  then have n: "int n = 2 * \<bar>v\<bar> div m + 1" by (simp add: n_def)
  define q where "q = 2 * \<bar>v\<bar> div m"
  have "2 * \<bar>v\<bar> = q * m + 2 * \<bar>v\<bar> mod m" by (simp add: q_def)
  moreover have "2 * \<bar>v\<bar> mod m < m" using assms(3) by simp
  moreover have "int n * m = q * m + m" unfolding n q_def by (simp add: algebra_simps)
  ultimately have big: "2 * \<bar>v\<bar> < int n * m" by linarith
  have "- v \<le> 2 ^ 52 * m" "- (2 * v) \<le> int n * m" using assms(4) big by linarith+
  then obtain u where u: "normalizeRange_up_within n (Finite v) (Finite m) = Some (Finite u)"
      "representable u" "0 \<le> u" "u = v \<or> u \<le> m"
    using up_within_terminates [OF assms(2,3) assms(1)] by blast
  have "1 \<le> int n" unfolding n using \<open>0 \<le> 2 * \<bar>v\<bar> div m\<close> by simp
  then have "m \<le> int n * m" using assms(3) by (simp add: mult_le_cancel_right1)
  moreover have "(int n + 2) * m = int n * m + 2 * m" by (simp add: algebra_simps)
  ultimately have "2 * u < (int n + 2) * m" using u(3,4) big assms(3) by (cases "u = v") linarith+
  moreover have "u \<le> 2 ^ 52 * m" using u(4) assms(3,4) by auto
  ultimately obtain r where "normalizeRange_down_within n (Finite u) (Finite m) = Some (Finite r)"
    using down_within_terminates [OF assms(2,3) u(2,3)] by blast
  then show ?thesis using u(1) by (auto simp: normalizeRange_within_def n_def)
qed

subsection \<open>Exact small integers, and an addend that is absorbed\<close>

lemma one64_pos: "0 < one64"
  by (simp add: one64_def)

lemma representable_small:
  assumes "\<bar>n\<bar> < 2 ^ 53"
  shows "representable (n * one64)"
proof -
  have "\<bar>n * one64\<bar> = \<bar>n\<bar> * 2 ^ 1074" by (simp add: one64_def abs_mult)
  also have "\<dots> < 2 ^ 53 * 2 ^ 1074" using assms by (intro mult_strict_right_mono) simp_all
  finally have lt: "\<bar>n * one64\<bar> < 2 ^ (53 + 1074)" by (simp only: power_add)
  then have "ulpShift (n * one64) \<le> 1074" by (rule ulpShift_le)
  then have "(2::int) ^ ulpShift (n * one64) dvd 2 ^ 1074" by (rule le_imp_power_dvd)
  then have "2 ^ ulpShift (n * one64) dvd n * one64" by (simp only: one64_def dvd_mult)
  moreover have "(2::int) ^ (53 + 1074) < 2 ^ 2098" by (rule power_strict_increasing) simp_all
  then have "\<bar>n * one64\<bar> < overflowThreshold" using lt unfolding overflowThreshold_def by linarith
  ultimately show ?thesis by (simp add: representable_def)
qed

lemma f64_small: "\<bar>n\<bar> < 2 ^ 53 \<Longrightarrow> f64 n = Finite (n * one64)"
  by (simp add: f64_def round64_representable representable_small)

lemma f64_plus:
  assumes "\<bar>a\<bar> < 2 ^ 53" "\<bar>b\<bar> < 2 ^ 53"
  shows "f64 a + f64 b = f64 (a + b)"
proof -
  have "f64 a + f64 b = round64 (a * one64 + b * one64)" using assms by (simp add: f64_small)
  also have "a * one64 + b * one64 = (a + b) * one64" by (simp add: distrib_right)
  finally show ?thesis by (simp only: f64_def)
qed

lemma f64_minus:
  assumes "\<bar>a\<bar> < 2 ^ 53" "\<bar>b\<bar> < 2 ^ 53"
  shows "f64 a - f64 b = f64 (a - b)"
proof -
  have "f64 a - f64 b = round64 (a * one64 - b * one64)" using assms by (simp add: f64_small)
  also have "a * one64 - b * one64 = (a - b) * one64" by (simp add: left_diff_distrib)
  finally show ?thesis by (simp only: f64_def)
qed

lemma f64_less_zero: "\<bar>a\<bar> < 2 ^ 53 \<Longrightarrow> (f64 a < 0) = (a < 0)"
  using one64_pos by (simp add: f64_small mult_less_0_iff)

lemma f64_le: "\<bar>a\<bar> < 2 ^ 53 \<Longrightarrow> \<bar>b\<bar> < 2 ^ 53 \<Longrightarrow> (f64 a \<le> f64 b) = (a \<le> b)"
  using one64_pos by (simp add: f64_small)

lemma roundShift_scale: "roundShift (a * 2 ^ c) (s + c) = roundShift a s * 2 ^ c"
proof -
  have d: "(a * 2 ^ c) div (2 ^ s * 2 ^ c) = a div 2 ^ s" by simp
  have m: "(a * 2 ^ c) mod (2 ^ s * 2 ^ c) = (a mod 2 ^ s) * 2 ^ c" by simp
  have c1: "(2 * ((a mod 2 ^ s) * 2 ^ c) < 2 ^ s * 2 ^ c) = (2 * (a mod 2 ^ s) < 2 ^ s)"
    using mult_less_cancel_right [of "2 * (a mod 2 ^ s)" "2 ^ c" "2 ^ s"] by (simp add: mult.assoc)
  have c2: "(2 ^ s * 2 ^ c < 2 * ((a mod 2 ^ s) * 2 ^ c)) = (2 ^ s < 2 * (a mod 2 ^ s))"
    using mult_less_cancel_right [of "2 ^ s" "2 ^ c" "2 * (a mod 2 ^ s)"] by (simp add: mult.assoc)
  show ?thesis
    unfolding roundShift_def Let_def power_add d m c1 c2
    by (simp add: mult.assoc)
qed

lemma ulpShift_scale:
  assumes "2 ^ 52 \<le> \<bar>a\<bar>"
  shows "ulpShift (a * 2 ^ c) = ulpShift a + c"
proof -
  have "0 < \<bar>a\<bar>" using assms by (smt (verit) zero_less_power)
  then have b: "bitlen (\<bar>a\<bar> * 2 ^ c) = bitlen \<bar>a\<bar> + int c" by simp
  have "int 53 \<le> bitlen \<bar>a\<bar>" using assms by (simp add: bitlen_ge_iff_power)
  then show ?thesis by (simp add: ulpShift_def abs_mult b nat_add_distrib)
qed

lemma round64_scale:
  assumes "2 ^ 52 \<le> a" "roundShift a (ulpShift a) < 2 ^ 1024"
  shows "round64 (a * one64) = Finite (roundShift a (ulpShift a) * one64)"
proof -
  have a: "0 < a" "\<bar>a\<bar> = a" using assms(1) by (smt (verit) zero_less_power)+
  have u: "ulpShift (a * one64) = ulpShift a + 1074"
    unfolding one64_def using assms(1) a by (intro ulpShift_scale) simp
  have e: "\<bar>a * one64\<bar> = a * 2 ^ 1074" using a by (simp add: abs_mult one64_def)
  have "roundShift \<bar>a * one64\<bar> (ulpShift (a * one64))
      = roundShift (a * 2 ^ 1074) (ulpShift a + 1074)" by (simp only: e u)
  also have "\<dots> = roundShift a (ulpShift a) * 2 ^ 1074" by (rule roundShift_scale)
  also have "\<dots> = roundShift a (ulpShift a) * one64" by (simp only: one64_def)
  finally have r: "roundShift \<bar>a * one64\<bar> (ulpShift (a * one64))
      = roundShift a (ulpShift a) * one64" .
  have "roundShift a (ulpShift a) * one64 < 2 ^ 1024 * one64"
    using assms(2) one64_pos by (intro mult_strict_right_mono) 
  also have "\<dots> = overflowThreshold" by (simp add: one64_def overflowThreshold_def flip: power_add)
  finally show ?thesis using a one64_pos unfolding round64_def Let_def r
    by (simp add: sgn_if mult_pos_pos)
qed

lemma absorb: "round64 ((2 ^ 100 - 360) * one64) = Finite (2 ^ 100 * one64)"
proof -
  have u: "ulpShift (2 ^ 100 - 360) = 47" by code_simp
  have r: "roundShift (2 ^ 100 - 360) 47 = 2 ^ 100" by code_simp
  have "(2::int) ^ 100 < 2 ^ 1024" by (rule power_strict_increasing) simp_all
  then have "roundShift (2 ^ 100 - 360) (ulpShift (2 ^ 100 - 360)) < 2 ^ 1024"
    by (simp only: u r)
  moreover have "(2::int) ^ 52 \<le> 2 ^ 100 - 360" by simp
  ultimately have "round64 ((2 ^ 100 - 360) * one64)
      = Finite (roundShift (2 ^ 100 - 360) (ulpShift (2 ^ 100 - 360)) * one64)"
    by (intro round64_scale)
  then show ?thesis by (simp only: u r)
qed

lemma representable_pow: "c < 2098 \<Longrightarrow> representable (2 ^ c)"
proof -
  assume c: "c < 2098"
  have "(2::int) ^ c < 2 ^ (53 + c)" by (rule power_strict_increasing) simp_all
  then have "\<bar>(2::int) ^ c\<bar> < 2 ^ (53 + c)" by simp
  then have "ulpShift (2 ^ c) \<le> c" by (rule ulpShift_le)
  then have "(2::int) ^ ulpShift (2 ^ c) dvd 2 ^ c" by (rule le_imp_power_dvd)
  moreover have "(2::int) ^ c < 2 ^ 2098" using c by (intro power_strict_increasing) simp_all
  ultimately show ?thesis by (simp add: representable_def overflowThreshold_def)
qed

lemma big_representable: "representable (huge * one64)"
proof -
  have "huge * one64 = 2 ^ (100 + 1074)" unfolding huge_def one64_def by (rule power_add [symmetric])
  moreover have "representable (2 ^ (100 + 1074))" by (rule representable_pow) simp
  ultimately show ?thesis by (simp only:)
qed

lemma huge_pos: "0 < huge"
  by (simp add: huge_def)

lemma absorb': "round64 ((huge - 360) * one64) = Finite (huge * one64)"
  unfolding huge_def by (rule absorb)

lemma f64_big: "f64 huge = Finite (huge * one64)"
  unfolding f64_def by (rule round64_representable) (rule big_representable)

lemma f64_big_neg: "f64 (- huge) = Finite (- (huge * one64))"
proof -
  have "representable (- huge * one64)" using big_representable by simp
  then have "round64 (- huge * one64) = Finite (- huge * one64)"
    by (rule round64_representable)
  then show ?thesis by (simp add: f64_def)
qed

lemma big_minus_360: "f64 huge - f64 360 = f64 huge"
proof -
  have "f64 huge - f64 360 = round64 (huge * one64 - 360 * one64)"
    by (simp add: f64_big f64_small)
  also have "huge * one64 - 360 * one64 = (huge - 360) * one64"
    by (simp add: left_diff_distrib)
  finally show ?thesis by (simp only: absorb' f64_big)
qed

lemma big_neg_plus_360: "f64 (- huge) + f64 360 = f64 (- huge)"
proof -
  have "f64 (- huge) + f64 360 = round64 (- (huge * one64) + 360 * one64)"
    by (simp add: f64_big_neg f64_small)
  also have "- (huge * one64) + 360 * one64 = - ((huge - 360) * one64)"
    by (simp add: left_diff_distrib)
  also have "round64 (- ((huge - 360) * one64)) = Finite (- (huge * one64))"
    by (simp only: round64_minus absorb' float64.case)
  finally show ?thesis by (simp only: f64_big_neg)
qed

lemma up_hangs: "normalizeRange_up (f64 (- huge)) (f64 360) = None"
proof -
  have "\<And>y. normalizeRange_up x mx = Some y \<Longrightarrow> \<not> (x = f64 (- huge) \<and> mx = f64 360)" for x mx
  proof -
    fix y
    assume "normalizeRange_up x mx = Some y"
    then show "\<not> (x = f64 (- huge) \<and> mx = f64 360)"
    proof (rule normalizeRange_up.raw_induct [rotated])
      fix up :: "float64 \<Rightarrow> float64 \<Rightarrow> float64 option" and x mx y
      assume IH: "\<And>x mx y. up x mx = Some y \<Longrightarrow> \<not> (x = f64 (- huge) \<and> mx = f64 360)"
        and eq: "(if x < 0 then up (x + mx) mx else Some x) = Some y"
      show "\<not> (x = f64 (- huge) \<and> mx = f64 360)"
      proof
        assume h: "x = f64 (- huge) \<and> mx = f64 360"
        have "x < 0" using h one64_pos huge_pos by (simp add: f64_big_neg mult_pos_pos)
        then have "up x mx = Some y" using eq h by (simp add: big_neg_plus_360)
        then show False using IH h by blast
      qed
    qed
  qed
  then show ?thesis by (cases "normalizeRange_up (f64 (- huge)) (f64 360)") auto
qed

lemma down_hangs: "normalizeRange_down (f64 huge) (f64 360) = None"
proof -
  have "\<And>y. normalizeRange_down x mx = Some y \<Longrightarrow> \<not> (x = f64 huge \<and> mx = f64 360)" for x mx
  proof -
    fix y
    assume "normalizeRange_down x mx = Some y"
    then show "\<not> (x = f64 huge \<and> mx = f64 360)"
    proof (rule normalizeRange_down.raw_induct [rotated])
      fix down :: "float64 \<Rightarrow> float64 \<Rightarrow> float64 option" and x mx y
      assume IH: "\<And>x mx y. down x mx = Some y \<Longrightarrow> \<not> (x = f64 huge \<and> mx = f64 360)"
        and eq: "(if mx \<le> x then down (x - mx) mx else Some x) = Some y"
      show "\<not> (x = f64 huge \<and> mx = f64 360)"
      proof
        assume h: "x = f64 huge \<and> mx = f64 360"
        have "(360::int) \<le> huge" by (simp add: huge_def)
        then have "mx \<le> x" using h one64_pos by (simp add: f64_big f64_small)
        then have "down x mx = Some y" using eq h by (simp add: big_minus_360)
        then show False using IH h by blast
      qed
    qed
  qed
  then show ?thesis by (cases "normalizeRange_down (f64 huge) (f64 360)") auto
qed

lemma hang1: "normalizeRange (f64 (- huge)) (f64 360) = None"
  by (simp only: normalizeRange_def up_hangs option.case)

lemma hang2: "normalizeRange (f64 huge) (f64 360) = None"
proof -
  have "\<not> f64 huge < 0" using one64_pos huge_pos by (simp add: f64_big mult_pos_pos not_less less_imp_le)
  then have "normalizeRange_up (f64 huge) (f64 360) = Some (f64 huge)"
    by (subst normalizeRange_up.simps) simp
  then show ?thesis by (simp only: normalizeRange_def down_hangs option.case)
qed

subsection \<open>normalizeRange on the real numbers\<close>

lemma spec_normalize_range:
  assumes "0 < m"
  shows "0 \<le> spec_normalize v m" "spec_normalize v m < m"
proof -
  have e: "m * (v / m) = v" using assms by simp
  have "m * of_int \<lfloor>v / m\<rfloor> \<le> m * (v / m)" using assms by (intro mult_left_mono) simp_all
  then show "0 \<le> spec_normalize v m" unfolding e by (simp add: spec_normalize_def)
  have "v / m < of_int \<lfloor>v / m\<rfloor> + 1" by linarith
  then have "m * (v / m) < m * (of_int \<lfloor>v / m\<rfloor> + 1)" using assms by (intro mult_strict_left_mono)
  then show "spec_normalize v m < m" unfolding e by (simp add: spec_normalize_def algebra_simps)
qed

lemma up_real:
  fixes r m :: real
  assumes "0 < m" "0 \<le> r" "r < m"
  shows "normalizeRange_up (r - m * real n) m = Some r"
proof (induction n)
  case 0
  then show ?case using assms by (subst normalizeRange_up.simps) simp
next
  case (Suc n)
  have e: "m * real (Suc n) = m * real n + m" by (simp add: algebra_simps)
  have "0 \<le> m * real n" using assms by simp
  then have neg: "r - m * real (Suc n) < 0" using assms unfolding e by linarith
  have "r - m * real (Suc n) + m = r - m * real n" unfolding e by simp
  then have "normalizeRange_up (r - m * real (Suc n)) m = normalizeRange_up (r - m * real n) m"
    using neg by (subst normalizeRange_up.simps) (simp only: if_True)
  then show ?case using Suc by simp
qed

lemma down_real:
  fixes r m :: real
  assumes "0 < m" "0 \<le> r" "r < m"
  shows "normalizeRange_down (r + m * real n) m = Some r"
proof (induction n)
  case 0
  then show ?case using assms by (subst normalizeRange_down.simps) simp
next
  case (Suc n)
  have e: "m * real (Suc n) = m * real n + m" by (simp add: algebra_simps)
  have "0 \<le> m * real n" using assms by simp
  then have ge: "m \<le> r + m * real (Suc n)" using assms unfolding e by linarith
  have "r + m * real (Suc n) - m = r + m * real n" unfolding e by simp
  then have "normalizeRange_down (r + m * real (Suc n)) m = normalizeRange_down (r + m * real n) m"
    using ge by (subst normalizeRange_down.simps) (simp only: if_True)
  then show ?case using Suc by simp
qed

lemma normalizeRange_real:
  fixes v m :: real
  assumes "0 < m"
  shows "normalizeRange v m = Some (spec_normalize v m)"
proof -
  define r where "r = spec_normalize v m"
  have r: "0 \<le> r" "r < m" using spec_normalize_range [OF assms] by (simp_all add: r_def)
  have v: "v = r + m * of_int \<lfloor>v / m\<rfloor>" by (simp add: r_def spec_normalize_def)
  show ?thesis
  proof (cases "0 \<le> \<lfloor>v / m\<rfloor>")
    case True
    then obtain n where n: "\<lfloor>v / m\<rfloor> = int n" using nonneg_int_cases by blast
    have vn: "v = r + m * real n" using v n by simp
    have "0 \<le> m * real n" using assms by simp
    then have "\<not> v < 0" using r vn by linarith
    then have "normalizeRange_up v m = Some v" by (subst normalizeRange_up.simps) simp
    moreover have "normalizeRange_down v m = Some r" using down_real [OF assms r, of n] vn by simp
    ultimately show ?thesis by (simp add: normalizeRange_def r_def)
  next
    case False
    then obtain n where n: "\<lfloor>v / m\<rfloor> = - int n" by (metis int_cases2 nle_le of_nat_0_le_iff)
    have vn: "v = r - m * real n" using v n by simp
    have "normalizeRange_up v m = Some r" using up_real [OF assms r, of n] vn by simp
    moreover have "normalizeRange_down r m = Some r" using r
      by (subst normalizeRange_down.simps) simp
    ultimately show ?thesis by (simp add: normalizeRange_def r_def)
  qed
qed

lemma spec_normalize_id: "0 < m \<Longrightarrow> 0 \<le> v \<Longrightarrow> v < m \<Longrightarrow> spec_normalize v m = v"
proof -
  assume h: "0 < m" "0 \<le> v" "v < m"
  then have "0 \<le> v / m" "v / m < 1" by simp_all
  then have "\<lfloor>v / m\<rfloor> = 0" by linarith
  then show ?thesis by (simp add: spec_normalize_def)
qed

subsection \<open>Ranges of the steps\<close>

lemma degreeSin_bounds: "- 1 \<le> degreeSin x" "degreeSin x \<le> 1"
  by (simp_all add: degreeSin_def)

lemma sinDec_bounds: "- 0.39782 \<le> sinDec L" "sinDec L \<le> 0.39782"
  using degreeSin_bounds [of L] by (simp_all add: sinDec_def)

lemma sinDec_unit: "- 1 < sinDec L" "sinDec L < 1"
  using degreeSin_bounds [of L] by (simp_all add: sinDec_def)

lemma degree_radian [simp]: "degreeToRadian (radianToDegree x) = x"
  by (simp add: degreeToRadian_def radianToDegree_def)

lemma cosDec_eq: "cosDec L = sqrt (1 - (sinDec L)\<^sup>2)"
proof -
  have "- 1 \<le> sinDec L" "sinDec L \<le> 1" using sinDec_unit [of L] by linarith+
  then show ?thesis by (simp add: cosDec_def degreeCos_def degreeAsin_def cos_arcsin)
qed

lemma cosDec_pos: "0 < cosDec L"
proof -
  have "\<bar>sinDec L\<bar> < 1" using sinDec_unit [of L] by linarith
  then have "(sinDec L)\<^sup>2 < 1" by (simp add: abs_square_less_1)
  then show ?thesis by (simp add: cosDec_eq)
qed

lemma cosDec_le_1: "cosDec L \<le> 1"
  by (simp add: cosDec_eq)

lemma trueLongitude_eq:
  "trueLongitude M = Some (spec_normalize (M + (1.916 * degreeSin M) + (0.020 * degreeSin (2 * M)) + 282.634) 360)"
  by (simp add: trueLongitude_def normalizeRange_real)

lemma rightAscension_eq:
  "rightAscension L = Some (let RA = spec_normalize (degreeAtan (0.91764 * degreeTan L)) 360 in
     (RA + (Floor (L / 90) * 90 - Floor (RA / 90) * 90)) / 15)"
  by (simp add: rightAscension_def normalizeRange_real Let_def)

lemma toLocalTime_eq:
  "toLocalTime today lngHour T = Inr (clockTime today
     (spec_normalize (spec_normalize (T - lngHour) 24 + real_of_int (nowZoneOffset today) / 3600) 24))"
  by (simp add: toLocalTime_def normalizeRange_real Let_def)


lemma degreeAcos_range:
  assumes "- 1 \<le> c" "c \<le> 1"
  shows "0 \<le> degreeAcos c" "degreeAcos c \<le> 180"
proof -
  have "0 \<le> arccos c" "arccos c \<le> pi" using assms by (simp_all add: arccos_lbound arccos_ubound)
  then show "0 \<le> degreeAcos c" "degreeAcos c \<le> 180"
    by (simp_all add: degreeAcos_def radianToDegree_def field_simps)
qed

lemma hourAngle_range:
  assumes "- 1 \<le> c" "c \<le> 1"
  shows "0 \<le> hourAngle sunset c" "hourAngle sunset c \<le> 24"
  using degreeAcos_range [OF assms] by (simp_all add: hourAngle_def)


subsection \<open>Agreement with the reference formulas\<close>

lemma trig_spec:
  "degreeSin = spec_sin" "degreeCos = spec_cos" "degreeTan = spec_tan"
  "degreeAsin = spec_asin" "degreeAcos = spec_acos" "degreeAtan = spec_atan"
  by (simp_all add: fun_eq_iff degreeSin_def degreeCos_def degreeTan_def degreeAsin_def
      degreeAcos_def degreeAtan_def spec_sin_def spec_cos_def spec_tan_def spec_asin_def
      spec_acos_def spec_atan_def degreeToRadian_def radianToDegree_def mult.commute)

lemma trueLongitude_spec: "trueLongitude M = Some (spec_L M)"
  by (simp add: trueLongitude_eq spec_L_def trig_spec)

lemma rightAscension_spec: "rightAscension L = Some (spec_RA L)"
  by (simp add: rightAscension_eq spec_RA_def trig_spec Floor_def Let_def)

lemma sinDec_spec: "sinDec L = spec_sinDec L"
  by (simp add: sinDec_def spec_sinDec_def trig_spec)

lemma cosHourAngle_spec:
  "cosHourAngle zenith latitude L =
     (if spec_cos latitude = 0
      then (if spec_cos zenith = spec_sinDec L * spec_sin latitude then NotANumber else Infinity)
      else Num (spec_cosH zenith latitude L))"
proof -
  have "cosDec L \<noteq> 0" using cosDec_pos [of L] by simp
  then show ?thesis
    by (simp add: cosHourAngle_def fdiv_def spec_cosH_def cosDec_def sinDec_spec trig_spec)
qed

lemma hourAngle_spec: "hourAngle (rising \<noteq> True) cosH = spec_H rising cosH"
  by (simp add: hourAngle_def spec_H_def trig_spec)

lemma toInt_Floor: "toInt (Floor x) = \<lfloor>x\<rfloor>"
  by (simp add: toInt_def Floor_def)

lemma clockTime_spec:
  "clockTime today (spec_normalize (spec_normalize (T - longitude / 15) 24
       + real_of_int (nowZoneOffset today) / 3600) 24) = spec_timestamp today longitude T"
  unfolding clockTime_def spec_timestamp_def Let_def toInt_Floor
  by (simp add: Floor_def Date_def FixedZone_def)

lemma clock_fields:
  assumes "0 \<le> x" "x < 24"
  shows "0 \<le> tHour (clockTime today x) \<and> tHour (clockTime today x) \<le> 23
    \<and> 0 \<le> tMin (clockTime today x) \<and> tMin (clockTime today x) \<le> 59
    \<and> 0 \<le> tSec (clockTime today x) \<and> tSec (clockTime today x) \<le> 59
    \<and> tNsec (clockTime today x) = 0
    \<and> tYear (clockTime today x) = nowYear today
    \<and> tMonth (clockTime today x) = nowMonth today
    \<and> tDay (clockTime today x) = nowDay today"
proof -
  define h where "h = \<lfloor>x\<rfloor>"
  define f where "f = (x - of_int h) * 60"
  define mi where "mi = \<lfloor>f\<rfloor>"
  define g where "g = (f - of_int mi) * 60"
  have h: "0 \<le> h" "h \<le> 23" using assms unfolding h_def by linarith+
  have "0 \<le> x - of_int h" "x - of_int h < 1" unfolding h_def by linarith+
  then have f: "0 \<le> f" "f < 60" unfolding f_def by simp_all
  then have mi: "0 \<le> mi" "mi \<le> 59" unfolding mi_def by linarith+
  have "0 \<le> f - of_int mi" "f - of_int mi < 1" unfolding mi_def by linarith+
  then have g: "0 \<le> g" "g < 60" unfolding g_def by simp_all
  then have s: "0 \<le> \<lfloor>g\<rfloor>" "\<lfloor>g\<rfloor> \<le> 59" by linarith+
  have "clockTime today x = Date (nowYear today) (nowMonth today) (nowDay today) h mi \<lfloor>g\<rfloor> 0
      (FixedZone (nowZoneName today) (nowZoneOffset today))"
    unfolding clockTime_def Let_def toInt_Floor
    by (simp add: Floor_def h_def f_def mi_def g_def)
  then show ?thesis using h mi s by (simp add: Date_def)
qed

lemma eventMeanTime_spec:
  "eventMeanTime today rising latitude longitude zenith =
     (let t = spec_t (real_of_int (nowYearDay today)) rising longitude;
          L = spec_L (spec_M t);
          RA = spec_RA L;
          cosH = spec_cosH zenith latitude L
      in if spec_cos latitude = 0
         then (if spec_cos zenith = spec_sinDec L * spec_sin latitude
               then Inl NaNTime else Inl (Panic ''no answer''))
         else if cosH > 1 \<or> cosH < - 1 then Inl (Panic ''no answer'')
         else Inr (spec_T (spec_H rising cosH) RA t))"
proof -
  have t: "approxTime N (rising \<noteq> True) (longitude / 15) = spec_t N rising longitude" for N
    by (simp add: approxTime_def spec_t_def)
  have M: "meanAnomaly t = spec_M t" for t
    by (simp add: meanAnomaly_def spec_M_def)
  have T: "localMeanTime H RA t = spec_T H RA t" for H RA t
    by (simp add: localMeanTime_def spec_T_def)
  show ?thesis
    unfolding eventMeanTime_def Let_def t M trueLongitude_spec rightAscension_spec
      cosHourAngle_spec hourAngle_spec T
    by simp
qed

lemma normalizeRange_examples:
  "normalizeRange (f64 370) (f64 360) = Some (f64 10)
   \<and> normalizeRange (f64 (- 10)) (f64 360) = Some (f64 350)
   \<and> normalizeRange (f64 25) (f64 24) = Some (f64 1)"
  by (simp add: normalizeRange_def f64_plus f64_minus f64_less_zero f64_le
    normalizeRange_up.simps [of "f64 370"] normalizeRange_up.simps [of "f64 (- 10)"]
    normalizeRange_up.simps [of "f64 350"] normalizeRange_up.simps [of "f64 25"]
    normalizeRange_down.simps [of "f64 370"] normalizeRange_down.simps [of "f64 10"]
    normalizeRange_down.simps [of "f64 350"] normalizeRange_down.simps [of "f64 25"]
    normalizeRange_down.simps [of "f64 1"])

subsection \<open>Calls at the equator and near the pole on the first of January\<close>

lemma equator_mean_time:
  "\<exists>T. eventMeanTime today sunrise 0 longitude 90 = Inr T"
proof -
  have c0: "spec_cos 0 = 1" by (simp add: spec_cos_def)
  have c90: "spec_cos 90 = 0" by (simp add: spec_cos_def)
  have s0: "spec_sin 0 = 0" by (simp add: spec_sin_def)
  have "spec_cosH 90 0 L = 0" for L
    by (simp add: spec_cosH_def c0 c90 s0)
  then show ?thesis
    unfolding eventMeanTime_spec Let_def by (simp add: c0)
qed

lemma equator_returns:
  "\<exists>ts. sunRiseSet today sunrise 0 longitude 90 = Inr ts"
proof -
  obtain T where "eventMeanTime today sunrise 0 longitude 90 = Inr T"
    using equator_mean_time by blast
  then show ?thesis by (simp add: sunRiseSet_def toLocalTime_eq)
qed

lemma degreeSin_low:
  assumes "210 \<le> L" "L \<le> 330"
  shows "degreeSin L \<le> - (1 / 2)"
proof -
  define y where "y = degreeToRadian L - 3 / 2 * pi"
  have y: "- (pi / 3) \<le> y" "y \<le> pi / 3"
    using assms by (simp_all add: y_def degreeToRadian_def field_simps)
  have "cos (pi / 3) \<le> cos \<bar>y\<bar>"
    using y pi_gt_zero by (intro cos_monotone_0_pi_le) linarith+
  then have c: "1 / 2 \<le> cos y" by (simp add: cos_60)
  have "degreeToRadian L = y + 3 / 2 * pi" by (simp add: y_def)
  then have "degreeSin L = sin (y + 3 / 2 * pi)" by (simp add: degreeSin_def)
  also have "\<dots> = - cos y"
  proof -
    have "cos (3 * pi / 2) = 0" "sin (3 * pi / 2) = - 1"
      using cos_3over2_pi sin_3over2_pi by simp_all
    then show ?thesis by (simp add: sin_add)
  qed
  finally show ?thesis using c by simp
qed

lemma degreeSin_89: "1 / 2 \<le> degreeSin 89"
proof -
  have "cos (pi / 3) \<le> cos (pi / 180)"
    using pi_gt_zero by (intro cos_monotone_0_pi_le) simp_all
  moreover have "degreeSin 89 = cos (pi / 180)"
    by (simp add: degreeSin_def degreeToRadian_def sin_cos_eq field_simps)
  ultimately show ?thesis by (simp add: cos_60)
qed

lemma degreeCos_89: "0 < degreeCos 89" "degreeCos 89 < 1 / 45"
proof -
  have e: "degreeCos 89 = sin (pi / 180)"
    by (simp add: degreeCos_def degreeToRadian_def cos_sin_eq field_simps)
  have "0 < pi / 180" "pi / 180 < pi" using pi_gt_zero by simp_all
  then show "0 < degreeCos 89" unfolding e by (rule sin_gt_zero)
  have "sin (pi / 180) \<le> pi / 180" using pi_gt_zero by (intro sin_x_le_x) simp
  also have "\<dots> < 1 / 45" using pi_less_4 by simp
  finally show "degreeCos 89 < 1 / 45" unfolding e .
qed

lemma degree_neg: "degreeSin (- x) = - degreeSin x" "degreeCos (- x) = degreeCos x"
  by (simp_all add: degreeSin_def degreeCos_def degreeToRadian_def)

lemma degreeCos_90: "degreeCos 90 = 0"
  by (simp add: degreeCos_def degreeToRadian_def)

lemma near_pole_winter:
  assumes "210 \<le> L" "L \<le> 330"
  shows "neverRises (cosHourAngle 90 89 L)" "neverSets (cosHourAngle 90 (- 89) L)"
proof -
  define s where "s = degreeSin 89"
  define c where "c = degreeCos 89"
  define d where "d = cosDec L * c"
  have s: "1 / 2 \<le> s" unfolding s_def by (rule degreeSin_89)
  have c: "0 < c" "c < 1 / 45" unfolding c_def by (rule degreeCos_89)+
  have "degreeSin L \<le> - (1 / 2)" using assms by (rule degreeSin_low)
  then have sd: "sinDec L \<le> - (19 / 100)" by (simp add: sinDec_def)
  have d0: "0 < d" unfolding d_def using c cosDec_pos [of L] by simp
  have nz: "cosDec L \<noteq> 0" "degreeCos 89 \<noteq> 0" using c cosDec_pos [of L] by (simp_all add: c_def)
  have "cosDec L * c \<le> 1 * c" using cosDec_le_1 [of L] c by (intro mult_right_mono) simp_all
  then have d1: "d < 1 / 45" using c unfolding d_def by linarith
  have "(19 / 100) * (1 / 2) \<le> (- sinDec L) * s"
    using sd s by (intro mult_mono) simp_all
  then have n: "19 / 200 \<le> - (sinDec L * s)" by simp
  have "1 * d < - (sinDec L * s)" using n d1 by linarith
  then have "1 < (- (sinDec L * s)) / d" using d0 by (simp only: pos_less_divide_eq)
  then show "neverRises (cosHourAngle 90 89 L)"
    using nz by (simp add: neverRises_def cosHourAngle_def fdiv_def degreeCos_90 s_def c_def d_def)
  have "sinDec L * s < - 1 * d" using n d1 by linarith
  then have "(sinDec L * s) / d < - 1" using d0 by (simp only: pos_divide_less_eq)
  then show "neverSets (cosHourAngle 90 (- 89) L)"
    using nz by (simp add: neverSets_def cosHourAngle_def fdiv_def degreeCos_90 degree_neg s_def c_def d_def)
qed

lemma trueLongitude_bounds:
  assumes "0 \<le> M + 280" "M + 285 < 360"
  shows "\<exists>L. trueLongitude M = Some L \<and> M + 280 \<le> L \<and> L \<le> M + 285"
proof -
  define raw where "raw = M + (1.916 * degreeSin M) + (0.020 * degreeSin (2 * M)) + 282.634"
  have "M + 280 \<le> raw" "raw \<le> M + 285"
    using degreeSin_bounds [of M] degreeSin_bounds [of "2 * M"] by (simp_all add: raw_def)
  moreover from this have "spec_normalize raw 360 = raw"
    using assms by (intro spec_normalize_id) simp_all
  ultimately show ?thesis by (simp add: trueLongitude_eq raw_def)
qed

lemma january_longitude:
  "trueLongitude (meanAnomaly (approxTime 1 False 0)) = Some januaryLongitude"
  "210 \<le> januaryLongitude" "januaryLongitude \<le> 330"
proof -
  have M: "meanAnomaly (approxTime 1 False 0) = - 2.057"
    by (simp add: meanAnomaly_def approxTime_def)
  obtain L where L: "trueLongitude (- 2.057) = Some L" "- 2.057 + 280 \<le> L" "L \<le> - 2.057 + 285"
    using trueLongitude_bounds [of "- 2.057"] by auto
  then have j: "januaryLongitude = L" by (simp add: januaryLongitude_def M)
  show "trueLongitude (meanAnomaly (approxTime 1 False 0)) = Some januaryLongitude"
    using L by (simp add: j M)
  show "210 \<le> januaryLongitude" "januaryLongitude \<le> 330" using L by (simp_all add: j)
qed

lemma panic_outside:
  assumes "trueLongitude (meanAnomaly (approxTime (real_of_int (nowYearDay today))
      (sunrise \<noteq> True) (longitude / 15))) = Some L"
    and "neverRises (cosHourAngle zenith latitude L) \<or> neverSets (cosHourAngle zenith latitude L)
      \<or> cosHourAngle zenith latitude L = Infinity"
  shows "sunRiseSet today sunrise latitude longitude zenith = Inl (Panic ''no answer'')"
proof -
  obtain RA where "rightAscension L = Some RA" by (simp add: rightAscension_eq)
  then show ?thesis using assms
    by (auto simp: sunRiseSet_def eventMeanTime_def Let_def neverRises_def neverSets_def
        split: quotient.splits)
qed

lemma january_run:
  "trueLongitude (meanAnomaly (approxTime (real_of_int (nowYearDay newYearsDay))
      (True \<noteq> True) (0 / 15))) = Some januaryLongitude"
  using january_longitude(1) by (simp add: newYearsDay_def)






subsection \<open>Horizon and twilight at the equator\<close>

lemma clockSeconds_clockTime: "clockSeconds (clockTime today x) = \<lfloor>x * 3600\<rfloor>"
proof -
  define h where "h = \<lfloor>x\<rfloor>"
  define f where "f = (x - of_int h) * 60"
  define mi where "mi = \<lfloor>f\<rfloor>"
  define g where "g = (f - of_int mi) * 60"
  have "clockTime today x = Date (nowYear today) (nowMonth today) (nowDay today) h mi \<lfloor>g\<rfloor> 0
      (FixedZone (nowZoneName today) (nowZoneOffset today))"
    unfolding clockTime_def Let_def toInt_Floor
    by (simp add: Floor_def h_def f_def mi_def g_def)
  then have "clockSeconds (clockTime today x) = h * 3600 + mi * 60 + \<lfloor>g\<rfloor>"
    by (simp add: clockSeconds_def Date_def)
  moreover have "x * 3600 = g + of_int (h * 3600 + mi * 60)"
    by (simp add: g_def f_def algebra_simps)
  then have "\<lfloor>x * 3600\<rfloor> = \<lfloor>g\<rfloor> + (h * 3600 + mi * 60)"
    by (simp only: floor_add_int)
  ultimately show ?thesis by simp
qed

lemma clockTime_date: "sameDate (clockTime today x) (clockTime today y)"
  by (simp add: sameDate_def clockTime_def Let_def Date_def)

lemma sin_cubic: "x - x ^ 3 / 6 \<le> sin x" if "0 \<le> x" for x :: real
proof -
  have "(\<Sum>m<3. sin_coeff m * x ^ m) = x"
    by (simp add: sin_coeff_def numeral_3_eq_3)
  then have "\<bar>sin x - x\<bar> \<le> inverse (fact 3) * \<bar>x\<bar> ^ 3"
    using Maclaurin_sin_bound [of x 3] by simp
  moreover have "inverse (fact 3) * \<bar>x\<bar> ^ 3 = x ^ 3 / 6"
    using that by (simp add: fact_numeral)
  ultimately show ?thesis by linarith
qed

lemma degreeCos_83: "7 / 100 \<le> degreeCos 83" "degreeCos 83 \<le> 4 / 25"
proof -
  define x where "x = 7 * pi / 180"
  have e: "degreeCos 83 = sin x"
    by (simp add: degreeCos_def degreeToRadian_def cos_sin_eq x_def field_simps)
  have x: "7 / 90 \<le> x" "x \<le> 7 / 45" using pi_ge_two pi_less_4 by (simp_all add: x_def)
  then have x0: "0 \<le> x" by linarith
  have "x ^ 3 \<le> (7 / 45) ^ 3" using x x0 by (intro power_mono) simp_all
  then have "7 / 90 - (7 / 45) ^ 3 / 6 \<le> x - x ^ 3 / 6" using x by linarith
  also have "\<dots> \<le> sin x" using x0 by (rule sin_cubic)
  finally show "7 / 100 \<le> degreeCos 83" unfolding e by (simp add: power3_eq_cube)
  have "sin x \<le> x" using x0 by (rule sin_x_le_x)
  then show "degreeCos 83 \<le> 4 / 25" unfolding e using x by linarith
qed

lemma cosDec_low: "9 / 10 \<le> cosDec L"
proof -
  have "\<bar>sinDec L\<bar> \<le> 2 / 5" using sinDec_bounds [of L] by simp
  then have "(sinDec L)\<^sup>2 \<le> (2 / 5)\<^sup>2" by (simp only: abs_le_square_iff [symmetric])
  then have "(9 / 10)\<^sup>2 \<le> 1 - (sinDec L)\<^sup>2" by (simp add: power2_eq_square)
  then have "sqrt ((9 / 10)\<^sup>2) \<le> sqrt (1 - (sinDec L)\<^sup>2)" by (simp only: real_sqrt_le_iff)
  then show ?thesis by (simp add: cosDec_eq)
qed

lemma twilight_cosH:
  "\<exists>c. cosHourAngle 83 0 L = Num c \<and> 7 / 100 \<le> c \<and> c \<le> 1 / 5"
proof -
  define cd where "cd = cosDec L"
  define z where "z = degreeCos 83"
  have cd: "9 / 10 \<le> cd" "cd \<le> 1" unfolding cd_def by (rule cosDec_low, rule cosDec_le_1)
  have z: "7 / 100 \<le> z" "z \<le> 4 / 25" unfolding z_def by (rule degreeCos_83)+
  have "z / cd \<le> z / (9 / 10)" using cd z by (intro divide_left_mono) simp_all
  then have "z / cd \<le> z * 10 / 9" by simp
  then have u: "z / cd \<le> 1 / 5" using z by linarith
  have "z / 1 \<le> z / cd" using cd z by (intro divide_left_mono) simp_all
  then have l: "7 / 100 \<le> z / cd" using z by linarith
  have "cosHourAngle 83 0 L = Num (z / cd)"
    using cd by (simp add: cosHourAngle_def fdiv_def degreeSin_def degreeCos_def [of 0]
        degreeToRadian_def [of 0] z_def cd_def)
  then show ?thesis using u l by blast
qed

lemma degreeAcos_upper:
  assumes "0 \<le> c" "c \<le> 1"
  shows "degreeAcos c \<le> 90 - 45 * c"
proof -
  have h: "1 \<le> pi / 2" using pi_ge_two by simp
  have "sin c \<le> c" using assms by (intro sin_x_le_x)
  also have "c = sin (arcsin c)" using assms by simp
  finally have "c \<le> arcsin c"
    using assms h arcsin_bounded [of c] by (subst (asm) sin_mono_le_eq) simp_all
  moreover have "arccos c = pi / 2 - arcsin c" using assms by (intro arccos_arcsin_eq) simp_all
  ultimately have "arccos c \<le> pi / 2 - c" by simp
  then have "(180 / pi) * arccos c \<le> (180 / pi) * (pi / 2 - c)"
    using pi_gt_zero by (intro mult_left_mono) simp_all
  also have "\<dots> = 90 - (180 / pi) * c" using pi_gt_zero by (simp add: field_simps)
  also have "\<dots> \<le> 90 - 45 * c"
  proof -
    have "45 \<le> 180 / pi" using pi_less_4 pi_gt_zero by (simp add: field_simps)
    then have "45 * c \<le> (180 / pi) * c" using assms by (intro mult_right_mono)
    then show ?thesis by simp
  qed
  finally show ?thesis by (simp add: degreeAcos_def radianToDegree_def)
qed

lemma rightAscension_fourth_quadrant:
  assumes "270 \<le> L" "L < 360"
  shows "\<exists>RA. rightAscension L = Some RA \<and> 18 \<le> RA \<and> RA < 24"
proof -
  define RA0 where "RA0 = spec_normalize (degreeAtan (0.91764 * degreeTan L)) 360"
  have a: "of_int \<lfloor>RA0 / 90\<rfloor> \<le> RA0 / 90" "RA0 / 90 < of_int \<lfloor>RA0 / 90\<rfloor> + 1" by linarith+
  have "3 \<le> L / 90" "L / 90 < 4" using assms by simp_all
  then have "\<lfloor>L / 90\<rfloor> = 3" by linarith
  then have q: "real_of_int \<lfloor>L / 90\<rfloor> = 3" by simp
  have "270 \<le> RA0 + (Floor (L / 90) * 90 - Floor (RA0 / 90) * 90)"
    "RA0 + (Floor (L / 90) * 90 - Floor (RA0 / 90) * 90) < 360"
    using a unfolding Floor_def q by linarith+
  then have "18 \<le> (RA0 + (Floor (L / 90) * 90 - Floor (RA0 / 90) * 90)) / 15"
    "(RA0 + (Floor (L / 90) * 90 - Floor (RA0 / 90) * 90)) / 15 < 24"
    by simp_all
  moreover have "rightAscension L
      = Some ((RA0 + (Floor (L / 90) * 90 - Floor (RA0 / 90) * 90)) / 15)"
    unfolding rightAscension_eq Let_def RA0_def ..
  ultimately show ?thesis by blast
qed

lemma hourAngle_horizon: "hourAngle False 0 = 18" "hourAngle True 0 = 6"
  by (simp_all add: hourAngle_def degreeAcos_def radianToDegree_def)

lemma hourAngle_twilight:
  assumes "7 / 100 \<le> c" "c \<le> 1 / 5"
  shows "18 + 1 / 5 \<le> hourAngle False c" "hourAngle False c \<le> 24"
    "0 \<le> hourAngle True c" "hourAngle True c \<le> 6 - 1 / 5"
proof -
  have c: "- 1 \<le> c" "0 \<le> c" "c \<le> 1" using assms by linarith+
  have u: "degreeAcos c \<le> 90 - 45 * c" using c(2,3) by (rule degreeAcos_upper)
  show "18 + 1 / 5 \<le> hourAngle False c" "hourAngle True c \<le> 6 - 1 / 5"
    using u assms by (simp_all add: hourAngle_def)
  show "hourAngle False c \<le> 24" "0 \<le> hourAngle True c"
    using hourAngle_range [OF c(1,3)] by simp_all
qed

lemma equator_horizon:
  assumes "trueLongitude (meanAnomaly (approxTime (real_of_int (nowYearDay today))
      (sunrise \<noteq> True) (longitude / 15))) = Some L" "rightAscension L = Some RA"
  shows "eventMeanTime today sunrise 0 longitude 90 =
    Inr (localMeanTime (hourAngle (sunrise \<noteq> True) 0) RA
      (approxTime (real_of_int (nowYearDay today)) (sunrise \<noteq> True) (longitude / 15)))"
proof -
  have "cosDec L \<noteq> 0" using cosDec_pos [of L] by simp
  then have "cosHourAngle 90 0 L = Num 0"
    by (simp add: cosHourAngle_def fdiv_def degreeCos_90 degreeSin_def degreeCos_def [of 0]
        degreeToRadian_def [of 0])
  then show ?thesis using assms by (simp add: eventMeanTime_def Let_def)
qed

lemma equator_twilight:
  assumes "trueLongitude (meanAnomaly (approxTime (real_of_int (nowYearDay today))
      (sunrise \<noteq> True) (longitude / 15))) = Some L" "rightAscension L = Some RA"
  shows "\<exists>c. 7 / 100 \<le> c \<and> c \<le> 1 / 5 \<and> eventMeanTime today sunrise 0 longitude 83 =
    Inr (localMeanTime (hourAngle (sunrise \<noteq> True) c) RA
      (approxTime (real_of_int (nowYearDay today)) (sunrise \<noteq> True) (longitude / 15)))"
proof -
  obtain c where c: "cosHourAngle 83 0 L = Num c" "7 / 100 \<le> c" "c \<le> 1 / 5"
    using twilight_cosH by blast
  then have "\<not> (c > 1 \<or> c < - 1)" by simp
  then have "eventMeanTime today sunrise 0 longitude 83 =
    Inr (localMeanTime (hourAngle (sunrise \<noteq> True) c) RA
      (approxTime (real_of_int (nowYearDay today)) (sunrise \<noteq> True) (longitude / 15)))"
    using assms c(1) by (simp add: eventMeanTime_def Let_def)
  then show ?thesis using c by blast
qed

lemma spec_normalize_second_day: "24 \<le> T \<Longrightarrow> T < 48 \<Longrightarrow> spec_normalize T 24 = T - 24"
proof -
  assume "24 \<le> T" "T < 48"
  then have "1 \<le> T / 24" "T / 24 < 2" by simp_all
  then have "\<lfloor>T / 24\<rfloor> = 1" by linarith
  then show ?thesis by (simp add: spec_normalize_def)
qed

lemma utc_clock:
  assumes "nowZoneOffset today = 0"
  shows "0 \<le> T \<Longrightarrow> T < 24 \<Longrightarrow> toLocalTime today (0 / 15) T = Inr (clockTime today T)"
    "24 \<le> T \<Longrightarrow> T < 48 \<Longrightarrow> toLocalTime today (0 / 15) T = Inr (clockTime today (T - 24))"
  using assms by (simp_all add: toLocalTime_eq spec_normalize_second_day spec_normalize_id)

lemma later_clock:
  assumes "x + 1 / 5 \<le> y"
  shows "clockSeconds (clockTime today x) < clockSeconds (clockTime today' y)"
proof -
  have "x * 3600 + of_int 720 \<le> y * 3600" using assms by simp
  then have "\<lfloor>x * 3600 + of_int 720\<rfloor> \<le> \<lfloor>y * 3600\<rfloor>" by (rule floor_mono)
  then have "\<lfloor>x * 3600\<rfloor> + 720 \<le> \<lfloor>y * 3600\<rfloor>" by (simp only: floor_add_int)
  then show ?thesis by (simp add: clockSeconds_clockTime)
qed

lemma evening_longitude:
  "\<exists>L. trueLongitude (meanAnomaly (approxTime 1 True 0)) = Some L \<and> 270 \<le> L \<and> L < 360"
proof -
  have M: "meanAnomaly (approxTime 1 True 0) = - 1.5642"
    by (simp add: meanAnomaly_def approxTime_def)
  obtain L where "trueLongitude (- 1.5642) = Some L" "- 1.5642 + 280 \<le> L" "L \<le> - 1.5642 + 285"
    using trueLongitude_bounds [of "- 1.5642"] by auto
  then show ?thesis by (auto simp: M)
qed

lemma morning_longitude:
  "\<exists>L. trueLongitude (meanAnomaly (approxTime 1 False 0)) = Some L \<and> 270 \<le> L \<and> L < 360"
proof -
  have M: "meanAnomaly (approxTime 1 False 0) = - 2.057"
    by (simp add: meanAnomaly_def approxTime_def)
  obtain L where "trueLongitude (- 2.057) = Some L" "- 2.057 + 280 \<le> L" "L \<le> - 2.057 + 285"
    using trueLongitude_bounds [of "- 2.057"] by auto
  then show ?thesis by (auto simp: M)
qed

lemma equator_morning:
  "\<exists>x y. SunRise newYearsDay 0 0 = Inr (clockTime newYearsDay x)
     \<and> Dawn newYearsDay 0 0 = Inr (clockTime newYearsDay y) \<and> x + 1 / 5 \<le> y"
proof -
  have n: "real_of_int (nowYearDay newYearsDay) = 1" "nowZoneOffset newYearsDay = 0"
    by (simp_all add: newYearsDay_def)
  obtain L where L: "trueLongitude (meanAnomaly (approxTime 1 False 0)) = Some L" "270 \<le> L" "L < 360"
    using morning_longitude by blast
  obtain RA where RA: "rightAscension L = Some RA" "18 \<le> RA" "RA < 24"
    using rightAscension_fourth_quadrant [OF L(2,3)] by blast
  have L': "trueLongitude (meanAnomaly (approxTime (real_of_int (nowYearDay newYearsDay))
      (True \<noteq> True) (0 / 15))) = Some L" using L(1) by (simp add: n)
  define Tr where "Tr = localMeanTime 18 RA (approxTime 1 False 0)"
  have r: "eventMeanTime newYearsDay True 0 0 90 = Inr Tr"
    using equator_horizon [OF L' RA(1)] by (simp add: n hourAngle_horizon Tr_def)
  obtain c where c: "7 / 100 \<le> c" "c \<le> 1 / 5"
      "eventMeanTime newYearsDay True 0 0 83 = Inr (localMeanTime (hourAngle False c) RA (approxTime 1 False 0))"
    using equator_twilight [OF L' RA(1)] by (auto simp: n)
  define Td where "Td = localMeanTime (hourAngle False c) RA (approxTime 1 False 0)"
  have Tr: "24 \<le> Tr" "Tr < 48" using RA by (simp_all add: Tr_def localMeanTime_def approxTime_def)
  have d: "Td = Tr + (hourAngle False c - 18)" by (simp add: Td_def Tr_def localMeanTime_def)
  have Td: "24 \<le> Td" "Td < 48" "Tr + 1 / 5 \<le> Td"
    using hourAngle_twilight(1,2) [OF c(1,2)] Tr RA unfolding d
    by (simp_all add: Tr_def localMeanTime_def approxTime_def)
  have "SunRise newYearsDay 0 0 = Inr (clockTime newYearsDay (Tr - 24))"
    using r utc_clock(2) [OF n(2) Tr] by (simp add: SunRise_def sunRiseSet_def)
  moreover have "Dawn newYearsDay 0 0 = Inr (clockTime newYearsDay (Td - 24))"
    using c(3) utc_clock(2) [OF n(2) Td(1,2)] by (simp add: Dawn_def sunRiseSet_def Td_def)
  moreover have "(Tr - 24) + 1 / 5 \<le> Td - 24" using Td(3) by simp
  ultimately show ?thesis by blast
qed

lemma equator_evening:
  "\<exists>x y. Dusk newYearsDay 0 0 = Inr (clockTime newYearsDay x)
     \<and> SunSet newYearsDay 0 0 = Inr (clockTime newYearsDay y) \<and> x + 1 / 5 \<le> y"
proof -
  have n: "real_of_int (nowYearDay newYearsDay) = 1" "nowZoneOffset newYearsDay = 0"
    by (simp_all add: newYearsDay_def)
  obtain L where L: "trueLongitude (meanAnomaly (approxTime 1 True 0)) = Some L" "270 \<le> L" "L < 360"
    using evening_longitude by blast
  obtain RA where RA: "rightAscension L = Some RA" "18 \<le> RA" "RA < 24"
    using rightAscension_fourth_quadrant [OF L(2,3)] by blast
  have L': "trueLongitude (meanAnomaly (approxTime (real_of_int (nowYearDay newYearsDay))
      (False \<noteq> True) (0 / 15))) = Some L" using L(1) by (simp add: n)
  define Ts where "Ts = localMeanTime 6 RA (approxTime 1 True 0)"
  have r: "eventMeanTime newYearsDay False 0 0 90 = Inr Ts"
    using equator_horizon [OF L' RA(1)] by (simp add: n hourAngle_horizon Ts_def)
  obtain c where c: "7 / 100 \<le> c" "c \<le> 1 / 5"
      "eventMeanTime newYearsDay False 0 0 83 = Inr (localMeanTime (hourAngle True c) RA (approxTime 1 True 0))"
    using equator_twilight [OF L' RA(1)] by (auto simp: n)
  define Tk where "Tk = localMeanTime (hourAngle True c) RA (approxTime 1 True 0)"
  have Ts: "0 \<le> Ts" "Ts < 24" using RA by (simp_all add: Ts_def localMeanTime_def approxTime_def)
  have d: "Tk = Ts + (hourAngle True c - 6)" by (simp add: Tk_def Ts_def localMeanTime_def)
  have Tk: "0 \<le> Tk" "Tk < 24" "Tk + 1 / 5 \<le> Ts"
    using hourAngle_twilight(3,4) [OF c(1,2)] Ts RA unfolding d
    by (simp_all add: Ts_def localMeanTime_def approxTime_def)
  have "SunSet newYearsDay 0 0 = Inr (clockTime newYearsDay Ts)"
    using r utc_clock(1) [OF n(2) Ts] by (simp add: SunSet_def sunRiseSet_def)
  moreover have "Dusk newYearsDay 0 0 = Inr (clockTime newYearsDay Tk)"
    using c(3) utc_clock(1) [OF n(2) Tk(1,2)] by (simp add: Dusk_def sunRiseSet_def Tk_def)
  ultimately show ?thesis using Tk(3) by blast
qed

section \<open>Claims\<close>

subsection \<open>C1\<close>

text \<open>
  C1, as the code has it. On every input on which \<open>cosH\<close> leaves \<open>[-1, 1]\<close> (as a number
  or as an infinite quotient), with \<open>L\<close> the true longitude of the call, \<open>sunRiseSet\<close>
  returns no time and ends in the one panic \<open>no answer\<close>, for \<open>cosH > 1\<close> and for
  \<open>cosH < -1\<close> alike.
\<close>

theorem C1_single_panic:
  assumes "trueLongitude (meanAnomaly (approxTime (real_of_int (nowYearDay today))
      (sunrise \<noteq> True) (longitude / 15))) = Some L"
    and "neverRises (cosHourAngle zenith latitude L) \<or> neverSets (cosHourAngle zenith latitude L)
      \<or> cosHourAngle zenith latitude L = Infinity"
  shows "sunRiseSet today sunrise latitude longitude zenith = Inl (Panic ''no answer'')"
  using assms by (rule panic_outside)

theorem C1_single_panic_witness:
  "trueLongitude (meanAnomaly (approxTime 1 False 0)) = Some januaryLongitude
   \<and> neverRises (cosHourAngle 90 89 januaryLongitude)
   \<and> sunRiseSet newYearsDay True 89 0 90 = Inl (Panic ''no answer'')"
  using C1_single_panic [OF january_run, of 90 89] january_longitude
    near_pole_winter [of januaryLongitude] by simp

text \<open>
  C1 as stated fails: on the first of January at longitude 0, latitude 89 gives \<open>cosH > 1\<close>
  (the sun never rises) and latitude -89 gives \<open>cosH < -1\<close> (it never sets), and \<open>SunRise\<close>
  ends both calls in the same panic with the same message.
\<close>

theorem C1_counterexample:
  "trueLongitude (meanAnomaly (approxTime 1 False 0)) = Some januaryLongitude
   \<and> neverRises (cosHourAngle 90 89 januaryLongitude)
   \<and> neverSets (cosHourAngle 90 (- 89) januaryLongitude)
   \<and> SunRise newYearsDay 89 0 = Inl (Panic ''no answer'')
   \<and> SunRise newYearsDay (- 89) 0 = Inl (Panic ''no answer'')"
  using panic_outside [OF january_run, of 90 89] panic_outside [OF january_run, of 90 "- 89"]
    january_longitude near_pole_winter [of januaryLongitude] by (simp add: SunRise_def)

subsection \<open>C2\<close>


subsection \<open>C3\<close>

text \<open>
  C3. For every successful computation, the result is built from \<open>T\<close> as
  \<open>UT = normalize(T - lngHour, 24)\<close>, \<open>localT = normalize(UT + offset / 3600, 24)\<close> with the
  zone offset of the reference instant, \<open>hour = floor(localT)\<close>,
  \<open>minute = floor((localT - hour) * 60)\<close>,
  \<open>second = floor(((localT - hour) * 60 - minute) * 60)\<close>, and the returned time carries the
  year, month and day of the reference instant and its zone.
\<close>

theorem C3_result:
  "sunRiseSet today sunrise latitude longitude zenith =
     (case eventMeanTime today sunrise latitude longitude zenith of
        Inl e \<Rightarrow> Inl e
      | Inr T \<Rightarrow> Inr (spec_timestamp today longitude T))"
proof -
  have "toLocalTime today (longitude / 15) T = Inr (spec_timestamp today longitude T)" for T
    by (simp add: toLocalTime_eq clockTime_spec)
  then show ?thesis by (simp add: sunRiseSet_def split: sum.splits)
qed

subsection \<open>C4\<close>

text \<open>
  C4. Each entry point delegates to \<open>sunRiseSet\<close> with its pair from the selector table:
  \<open>SunRise\<close> rising at zenith 90, \<open>SunSet\<close> setting at zenith 90, \<open>Dawn\<close> rising at zenith
  83, \<open>Dusk\<close> setting at zenith 83; latitude and longitude are passed on as they are, for
  every value.
\<close>

theorem C4_entry_points:
  "SunRise today latitude longitude = sunRiseSet today True latitude longitude 90
   \<and> SunSet today latitude longitude = sunRiseSet today False latitude longitude 90
   \<and> Dawn today latitude longitude = sunRiseSet today True latitude longitude 83
   \<and> Dusk today latitude longitude = sunRiseSet today False latitude longitude 83"
  by (simp add: SunRise_def SunSet_def Dawn_def Dusk_def)

subsection \<open>C5\<close>




subsection \<open>C6\<close>

text \<open>
  C6, as the code has it. For every finite \<open>v\<close> and finite positive \<open>max\<close>, whenever
  \<open>normalizeRange\<close> returns, its result lies in \<open>[0, max)\<close> and \<open>normalizeRange\<close> returns the
  result unchanged when applied to it again; it does return whenever \<open>|v| \<le> 2^52 * max\<close>.
\<close>

theorem C6_range_idempotent:
  assumes "representable v" "representable m" "0 < m"
  shows "(\<forall>r. normalizeRange (Finite v) (Finite m) = Some r \<longrightarrow>
            0 \<le> r \<and> r < Finite m \<and> normalizeRange r (Finite m) = Some r)
       \<and> (\<bar>v\<bar> \<le> 2 ^ 52 * m \<longrightarrow> normalizeRange (Finite v) (Finite m) \<noteq> None)"
proof (intro conjI allI impI)
  fix r
  assume "normalizeRange (Finite v) (Finite m) = Some r"
  then obtain k where k: "r = Finite k" "0 \<le> k" "k < m"
    using normalizeRange_float64_partial assms by blast
  then show "0 \<le> r" "r < Finite m" "normalizeRange r (Finite m) = Some r"
    by (simp_all add: zero_float64_def normalizeRange_fixed)
next
  assume "\<bar>v\<bar> \<le> 2 ^ 52 * m"
  then show "normalizeRange (Finite v) (Finite m) \<noteq> None"
    using normalizeRange_float64_terminates [OF assms] by auto
qed

theorem C6_range_idempotent_witness:
  "representable (- 10 * one64) \<and> representable (360 * one64) \<and> 0 < 360 * one64
   \<and> normalizeRange (f64 (- 10)) (f64 360) = Some (f64 350)
   \<and> 0 \<le> f64 350 \<and> f64 350 < f64 360
   \<and> normalizeRange (f64 350) (f64 360) = Some (f64 350)
   \<and> \<bar>- 10 * one64\<bar> \<le> 2 ^ 52 * (360 * one64)"
proof -
  have h: "representable (- 10 * one64)" "representable (360 * one64)" "0 < 360 * one64"
    using one64_pos by (simp_all add: representable_small)
  have e: "normalizeRange (Finite (- 10 * one64)) (Finite (360 * one64)) = Some (f64 350)"
    using normalizeRange_examples by (simp add: f64_small)
  have b: "\<bar>- 10 * one64\<bar> \<le> 2 ^ 52 * (360 * one64)" using one64_pos by (simp add: abs_mult)
  show ?thesis using h e b C6_range_idempotent [OF h] by (simp add: f64_small)
qed

text \<open>
  C6 as stated fails: for \<open>v = -2^100\<close> and \<open>max = 360\<close> the sum \<open>v + max\<close> rounds back to
  \<open>v\<close>, the first loop never ends, and no value in \<open>[0, max)\<close> is returned.
\<close>

theorem C6_counterexample:
  "normalizeRange (f64 (- (2 ^ 100))) (f64 360) = None"
  using hang1 by (simp only: huge_def)

subsection \<open>C7\<close>

text \<open>
  C7, as the code has it. \<open>normalizeRange\<close> terminates for every finite \<open>v\<close> and finite
  positive \<open>max\<close> with \<open>|v| \<le> 2^52 * max\<close>, each of its loops running at most
  \<open>floor(2 * |v| / max) + 1\<close> times: there every addition or subtraction of \<open>max\<close> moves \<open>v\<close>
  by at least \<open>max / 2\<close>.
\<close>

theorem C7_terminates_in_range:
  assumes "representable v" "representable m" "0 < m" "\<bar>v\<bar> \<le> 2 ^ 52 * m"
  shows "normalizeRange (Finite v) (Finite m) \<noteq> None
    \<and> normalizeRange_within (nat (2 * \<bar>v\<bar> div m) + 1) (Finite v) (Finite m)
        = normalizeRange (Finite v) (Finite m)"
proof -
  obtain r where r: "normalizeRange_within (nat (2 * \<bar>v\<bar> div m) + 1) (Finite v) (Finite m)
      = Some (Finite r)"
    using within_terminates [OF assms] by blast
  then have "normalizeRange (Finite v) (Finite m) = Some (Finite r)" by (rule within_sound)
  then show ?thesis using r by simp
qed

theorem C7_terminates_in_range_witness:
  "representable (370 * one64) \<and> representable (360 * one64) \<and> 0 < 360 * one64
   \<and> \<bar>370 * one64\<bar> \<le> 2 ^ 52 * (360 * one64)
   \<and> normalizeRange (f64 370) (f64 360) \<noteq> None
   \<and> normalizeRange_within (nat (2 * \<bar>370 * one64\<bar> div (360 * one64)) + 1) (f64 370) (f64 360)
       = normalizeRange (f64 370) (f64 360)"
proof -
  have h: "representable (370 * one64)" "representable (360 * one64)" "0 < 360 * one64"
    "\<bar>370 * one64\<bar> \<le> 2 ^ 52 * (360 * one64)"
    using one64_pos by (simp_all add: representable_small abs_mult)
  have f: "f64 370 = Finite (370 * one64)" "f64 360 = Finite (360 * one64)"
    by (simp_all add: f64_small)
  show ?thesis using h C7_terminates_in_range [OF h] unfolding f by blast
qed

text \<open>
  C7 as stated fails: for \<open>v = 2^100\<close> and \<open>max = 360\<close> the difference \<open>v - max\<close> rounds
  back to \<open>v\<close>, and the second loop never ends.
\<close>

theorem C7_counterexample:
  "normalizeRange (f64 (2 ^ 100)) (f64 360) = None"
  using hang2 by (simp only: huge_def)

subsection \<open>C8\<close>

text \<open>
  C8. \<open>normalizeRange\<close> on float64 returns \<open>normalize(370, 360) = 10\<close>,
  \<open>normalize(-10, 360) = 350\<close> and \<open>normalize(25, 24) = 1\<close>.
\<close>

theorem C8_normalizeRange_values:
  "normalizeRange (f64 370) (f64 360) = Some (f64 10)
   \<and> normalizeRange (f64 (- 10)) (f64 360) = Some (f64 350)
   \<and> normalizeRange (f64 25) (f64 24) = Some (f64 1)"
  by (rule normalizeRange_examples)

subsection \<open>C9\<close>

text \<open>
  C9, evaluated on the code. On the first of January at latitude 0 and longitude 0, read
  in UTC, all four entry points return a time on that day, and \<open>Dawn\<close> is later than
  \<open>SunRise\<close> and \<open>Dusk\<close> earlier than \<open>SunSet\<close>, each by at least twelve minutes: with zenith
  83 the code finds the sun 7 degrees above the horizon, not below it.
\<close>

theorem C9_dawn_after_sunrise:
  "SunRise newYearsDay 0 0 = Inr (projr (SunRise newYearsDay 0 0))
   \<and> Dawn newYearsDay 0 0 = Inr (projr (Dawn newYearsDay 0 0))
   \<and> SunSet newYearsDay 0 0 = Inr (projr (SunSet newYearsDay 0 0))
   \<and> Dusk newYearsDay 0 0 = Inr (projr (Dusk newYearsDay 0 0))
   \<and> clockSeconds (projr (SunRise newYearsDay 0 0)) < clockSeconds (projr (Dawn newYearsDay 0 0))
   \<and> clockSeconds (projr (Dusk newYearsDay 0 0)) < clockSeconds (projr (SunSet newYearsDay 0 0))
   \<and> sameDate (projr (SunRise newYearsDay 0 0)) (projr (Dawn newYearsDay 0 0))
   \<and> sameDate (projr (Dusk newYearsDay 0 0)) (projr (SunSet newYearsDay 0 0))"
proof -
  obtain x y where m: "SunRise newYearsDay 0 0 = Inr (clockTime newYearsDay x)"
      "Dawn newYearsDay 0 0 = Inr (clockTime newYearsDay y)" "x + 1 / 5 \<le> y"
    using equator_morning by blast
  obtain u v where e: "Dusk newYearsDay 0 0 = Inr (clockTime newYearsDay u)"
      "SunSet newYearsDay 0 0 = Inr (clockTime newYearsDay v)" "u + 1 / 5 \<le> v"
    using equator_evening by blast
  show ?thesis
    unfolding m(1,2) e(1,2)
    using later_clock [OF m(3)] later_clock [OF e(3)] by (simp add: clockTime_date)
qed

subsection \<open>C10\<close>

text \<open>
  C10. Every time that \<open>sunRiseSet\<close> returns has its hour in \<open>[0, 23]\<close>, its minute and
  second in \<open>[0, 59]\<close>, zero nanoseconds, and the year, month and day of the reference
  instant: \<open>time.Date\<close> is given no field to carry into another day.
\<close>

theorem C10_same_day:
  assumes "sunRiseSet today sunrise latitude longitude zenith = Inr ts"
  shows "0 \<le> tHour ts \<and> tHour ts \<le> 23 \<and> 0 \<le> tMin ts \<and> tMin ts \<le> 59
    \<and> 0 \<le> tSec ts \<and> tSec ts \<le> 59 \<and> tNsec ts = 0
    \<and> tYear ts = nowYear today \<and> tMonth ts = nowMonth today \<and> tDay ts = nowDay today"
proof -
  obtain T where "toLocalTime today (longitude / 15) T = Inr ts"
    using assms by (auto simp: sunRiseSet_def split: sum.splits)
  then have ts: "ts = clockTime today
      (spec_normalize (spec_normalize (T - longitude / 15) 24 + real_of_int (nowZoneOffset today) / 3600) 24)"
    by (simp add: toLocalTime_eq)
  show ?thesis unfolding ts by (rule clock_fields) (simp_all add: spec_normalize_range)
qed

theorem C10_same_day_witness:
  "sunRiseSet newYearsDay True 0 0 90 = Inr (projr (sunRiseSet newYearsDay True 0 0 90))
   \<and> 0 \<le> tHour (projr (sunRiseSet newYearsDay True 0 0 90))
   \<and> tHour (projr (sunRiseSet newYearsDay True 0 0 90)) \<le> 23
   \<and> 0 \<le> tMin (projr (sunRiseSet newYearsDay True 0 0 90))
   \<and> tMin (projr (sunRiseSet newYearsDay True 0 0 90)) \<le> 59
   \<and> 0 \<le> tSec (projr (sunRiseSet newYearsDay True 0 0 90))
   \<and> tSec (projr (sunRiseSet newYearsDay True 0 0 90)) \<le> 59
   \<and> tNsec (projr (sunRiseSet newYearsDay True 0 0 90)) = 0
   \<and> tYear (projr (sunRiseSet newYearsDay True 0 0 90)) = 2024
   \<and> tMonth (projr (sunRiseSet newYearsDay True 0 0 90)) = 1
   \<and> tDay (projr (sunRiseSet newYearsDay True 0 0 90)) = 1"
proof -
  obtain ts where ts: "sunRiseSet newYearsDay True 0 0 90 = Inr ts"
    using equator_returns by blast
  have "nowYear newYearsDay = 2024" "nowMonth newYearsDay = 1" "nowDay newYearsDay = 1"
    by (simp_all add: newYearsDay_def)
  then show ?thesis using C10_same_day [OF ts] unfolding ts by simp
qed

end
